theory Spec2Isabelle
  imports Main "HOL-Library.AList" "HOL-Library.Multiset"
begin

section \<open>Data model\<close>

text \<open>
  The annotation record is owned by the API layer; the threading code reads four of its
  properties: \<open>id\<close> (absent until the annotation is saved), \<open>$tag\<close> (the local
  identifier), \<open>references\<close> (may be missing) and \<open>created\<close>.
\<close>

record Annotation =
  id_a :: "string option"
  tag_a :: string
  references :: "string list option"
  created :: string

datatype highlight = Dim | Highlight

text \<open>
  The properties of a \<open>Thread\<close> other than \<open>children\<close>. The property \<open>parent\<close> holds
  the id of the parent thread, or is undefined.
\<close>

record thread_state =
  id_t :: string
  annotation :: "Annotation option"
  parent :: "string option"
  visible :: bool
  collapsed :: bool
  totalChildren :: nat
  highlightState :: "highlight option"

text \<open>
  While the tree is being linked, the \<open>Thread\<close> objects are shared and mutated: the
  \<open>children\<close> array of one object holds references to other objects of the table
  \<open>threads\<close>. Every object is stored under exactly one key of \<open>threads\<close> and is never
  replaced once linking has started, so a reference is modelled by that key.
\<close>

record thread_obj = thread_state +
  children_ids :: "string list"

text \<open>
  The table \<open>threads\<close> is a plain object used as a dictionary. It is modelled by an
  association list that keeps the order in which the keys were created, which
  \<open>for ... in\<close> observes. Keys are taken to be ordinary keys: property names that
  \<open>Object.prototype\<close> defines are outside the model.
\<close>

type_synonym threads = "(string \<times> thread_obj) list"

text \<open>
  Once \<open>mapThread\<close> has copied the shared objects, a thread is a value: its own
  properties and the list of its children.
\<close>

datatype 'a thread = Thread (state: 'a) (children: "'a thread list")

record counted_state = thread_state +
  depth :: int
  replyCount :: nat

definition DEFAULT_THREAD_STATE :: thread_state where
  "DEFAULT_THREAD_STATE =
     \<lparr>id_t = ''__default__'', annotation = None, parent = None, visible = True,
      collapsed = False, totalChildren = 0, highlightState = None\<rparr>"

text \<open>
  JavaScript truthiness of an optional string: \<open>undefined\<close> and the empty string are
  falsy, every other string is truthy.
\<close>

definition truthy :: "string option \<Rightarrow> bool" where
  "truthy p = (case p of None \<Rightarrow> False | Some s \<Rightarrow> s \<noteq> [])"

definition annotationId :: "Annotation \<Rightarrow> string" where
  "annotationId a =
     (case id_a a of None \<Rightarrow> tag_a a | Some s \<Rightarrow> if s = [] then tag_a a else s)"

section \<open>Tree builder\<close>

text \<open>
  \<open>threads\<close> is created as \<open>{}\<close>, so reading \<open>threads[k]\<close> for a key it does not hold
  finds what \<open>Object.prototype\<close> defines under that name: a function or object,
  truthy, with neither \<open>parent\<close> nor \<open>children\<close>.
\<close>

definition Object_prototype_keys :: "string list" where
  "Object_prototype_keys =
     [''constructor'', ''__defineGetter__'', ''__defineSetter__'', ''hasOwnProperty'',
      ''__lookupGetter__'', ''__lookupSetter__'', ''isPrototypeOf'', ''propertyIsEnumerable'',
      ''toString'', ''valueOf'', ''__proto__'', ''toLocaleString'']"

definition inherited :: "string \<Rightarrow> bool" where
  "inherited k = (k \<in> set Object_prototype_keys)"

text \<open>
  \<open>hasPathToRoot\<close> recurses along the \<open>parent\<close> properties with no bound of its own.
  The result \<open>None\<close> stands for a call that does not return. For a key that
  \<open>threads\<close> does not hold the answer is false, unless the key is inherited: the
  inherited value has no \<open>parent\<close> and counts as the top of the tree.
\<close>

partial_function (option) hasPathToRoot :: "threads \<Rightarrow> string \<Rightarrow> string \<Rightarrow> bool option" where
  "hasPathToRoot threads i ancestorId =
     (case map_of threads ancestorId of
        None \<Rightarrow> Some (inherited ancestorId)
      | Some a \<Rightarrow>
          (case parent a of
             None \<Rightarrow> Some True
           | Some p \<Rightarrow>
               if p = i then Some False
               else if p = [] then Some True
               else hasPathToRoot threads i p))"

declare hasPathToRoot.simps [code]

definition placeholder :: thread_obj where
  "placeholder = thread_state.extend DEFAULT_THREAD_STATE \<lparr>children_ids = []\<rparr>"

text \<open>
  The two assignments that link a thread to its parent:
  \<open>threads[id].parent = parentId; threads[parentId].children.push(threads[id])\<close>.
  They run one after the other, so when both name the same object the second sees the
  first. A missing object makes the statement throw (\<open>None\<close>); so does a parent
  that is only an inherited key, whose value has no \<open>children\<close> to push to.
\<close>

definition link :: "threads \<Rightarrow> string \<Rightarrow> string \<Rightarrow> threads option" where
  "link threads i parentId =
     (case map_of threads i of
        None \<Rightarrow> None
      | Some t \<Rightarrow>
          (let threads1 = AList.update i (t\<lparr>parent := Some parentId\<rparr>) threads
           in case map_of threads1 parentId of
                None \<Rightarrow> None
              | Some p \<Rightarrow>
                  Some (AList.update parentId (p\<lparr>children_ids := children_ids p @ [i]\<rparr>)
                          threads1)))"

text \<open>
  \<open>setParent\<close> mutates \<open>threads\<close>; the model returns the new table. Reading
  \<open>threads[id].parent\<close> for an id that is neither a key of the table nor inherited
  throws; \<open>threadAnnotations\<close> calls \<open>setParent\<close> only for keys of the table. The test
  \<open>!threads[parentId]\<close> fails for an inherited key, for which no placeholder is made.
\<close>

function setParent :: "threads \<Rightarrow> string \<Rightarrow> string list \<Rightarrow> threads option" where
  "setParent threads i parents =
     (case map_of threads i of
        None \<Rightarrow> None
      | Some t \<Rightarrow>
          if truthy (parent t) \<or> parents = [] then Some threads
          else
            (case (if map_of threads (last parents) = None \<and> \<not> inherited (last parents)
                   then setParent (AList.update (last parents) placeholder threads)
                          (last parents) (butlast parents)
                   else Some threads) of
               None \<Rightarrow> None
             | Some threads1 \<Rightarrow>
                 (case hasPathToRoot threads1 i (last parents) of
                    None \<Rightarrow> None
                  | Some ok \<Rightarrow>
                      if ok then link threads1 i (last parents) else Some threads1)))"
  by pat_completeness auto
termination
  by (relation "measure (\<lambda>(threads, i, parents). length parents)") auto

definition new_thread :: "Annotation \<Rightarrow> thread_obj" where
  "new_thread a =
     thread_state.extend (DEFAULT_THREAD_STATE\<lparr>annotation := Some a, id_t := annotationId a\<rparr>)
       \<lparr>children_ids = []\<rparr>"

text \<open>
  \<open>threads[id] = {...}\<close> creates the key \<open>id\<close> or replaces its thread. (The one id for which
  it does not is \<open>__proto__\<close>, which the properties below exclude where it matters.)
\<close>

definition create_threads :: "Annotation list \<Rightarrow> threads" where
  "create_threads annotations =
     foldl (\<lambda>threads a. AList.update (annotationId a) (new_thread a) threads) [] annotations"

definition parents_of :: "Annotation \<Rightarrow> string list" where
  "parents_of a = (case references a of None \<Rightarrow> [] | Some ps \<Rightarrow> ps)"

fun link_threads :: "threads \<Rightarrow> Annotation list \<Rightarrow> threads option" where
  "link_threads threads [] = Some threads"
| "link_threads threads (a # annotations) =
     (case setParent threads (annotationId a) (parents_of a) of
        None \<Rightarrow> None
      | Some threads1 \<Rightarrow> link_threads threads1 annotations)"

text \<open>
  \<open>for (const rootThreadId in threads)\<close> visits the keys that are array indices first,
  in ascending numeric order, then the other keys in the order of their creation.
\<close>

definition digit_value :: "char \<Rightarrow> int" where
  "digit_value c = of_char c - 48"

definition is_digit :: "char \<Rightarrow> bool" where
  "is_digit c = (48 \<le> (of_char c :: int) \<and> (of_char c :: int) \<le> 57)"

definition index_value :: "string \<Rightarrow> int" where
  "index_value s = foldl (\<lambda>n c. 10 * n + digit_value c) 0 s"

definition is_array_index :: "string \<Rightarrow> bool" where
  "is_array_index s =
     (s \<noteq> [] \<and> list_all is_digit s \<and> (length s = 1 \<or> hd s \<noteq> CHR ''0'')
      \<and> index_value s < 4294967295)"

definition for_in_keys :: "threads \<Rightarrow> string list" where
  "for_in_keys threads =
     sort_key index_value (filter is_array_index (map fst threads))
       @ filter (\<lambda>k. \<not> is_array_index k) (map fst threads)"

definition is_root_thread :: "threads \<Rightarrow> string \<Rightarrow> bool" where
  "is_root_thread threads k =
     (case map_of threads k of None \<Rightarrow> False | Some t \<Rightarrow> \<not> truthy (parent t))"

definition collapse_roots :: "threads \<Rightarrow> threads" where
  "collapse_roots threads =
     map (\<lambda>(k, t). (k, if truthy (parent t) then t else t\<lparr>collapsed := True\<rparr>)) threads"

definition root_thread :: "string list \<Rightarrow> thread_obj" where
  "root_thread rootThreads =
     thread_state.extend
       (DEFAULT_THREAD_STATE\<lparr>id_t := ''root'', totalChildren := length rootThreads\<rparr>)
       \<lparr>children_ids = rootThreads\<rparr>"

definition threadAnnotations :: "Annotation list \<Rightarrow> (threads \<times> thread_obj) option" where
  "threadAnnotations annotations =
     (case link_threads (create_threads annotations) annotations of
        None \<Rightarrow> None
      | Some threads \<Rightarrow>
          Some (collapse_roots threads,
                root_thread (filter (is_root_thread threads) (for_in_keys threads))))"

section \<open>Traversals\<close>

text \<open>
  \<open>Array.prototype.map\<close> with a callback that may fail to return: the callbacks run
  in order and the first failure is the failure of the whole call.
\<close>

primrec traverse :: "('a \<Rightarrow> 'b option) \<Rightarrow> 'a list \<Rightarrow> 'b list option" where
  "traverse f [] = Some []"
| "traverse f (x # xs) =
     Option.bind (f x) (\<lambda>y. Option.bind (traverse f xs) (\<lambda>ys. Some (y # ys)))"

lemma traverse_mono [partial_function_mono]:
  assumes "\<And>x. mono_option (\<lambda>f. g f x)"
  shows "mono_option (\<lambda>f. traverse (g f) xs)"
proof (induction xs)
  case Nil
  show ?case by (simp add: option.const_mono)
next
  case (Cons x xs)
  show ?case
    unfolding traverse.simps
    by (intro bind_mono assms Cons.IH option.const_mono)
qed

text \<open>
  The first call of \<open>mapThread\<close> in \<open>buildThread\<close> walks the shared objects that
  \<open>threadAnnotations\<close> linked and copies them into a tree of fresh objects. The walk
  follows the \<open>children\<close> references with no bound of its own (\<open>None\<close>: it does not
  return). The callback of that call reads the properties of the thread only.
\<close>

partial_function (option) mapThread_obj ::
  "threads \<Rightarrow> thread_obj \<Rightarrow> (thread_obj \<Rightarrow> thread_state) \<Rightarrow> thread_state thread option" where
  "mapThread_obj threads t mapFn =
     Option.bind
       (traverse
          (\<lambda>k. case map_of threads k of
                 None \<Rightarrow> None
               | Some child \<Rightarrow> mapThread_obj threads child mapFn)
          (children_ids t))
       (\<lambda>cs. Some (Thread (mapFn t) cs))"

declare mapThread_obj.simps [code]

text \<open>The later calls of \<open>mapThread\<close> work on such a tree.\<close>

fun mapThread :: "'a thread \<Rightarrow> ('a thread \<Rightarrow> 'b) \<Rightarrow> 'b thread" where
  "mapThread (Thread s cs) mapFn =
     Thread (mapFn (Thread s cs)) (map (\<lambda>child. mapThread child mapFn) cs)"

fun hasVisibleChildren :: "('a thread_state_scheme) thread \<Rightarrow> bool" where
  "hasVisibleChildren (Thread s cs) =
     list_ex (\<lambda>child. visible (state child) \<or> hasVisibleChildren child) cs"

section \<open>Sorting\<close>

text \<open>
  \<open>Array.prototype.sort\<close> belongs to the language: it is stable, and for a consistent
  comparator its result is the one stable sorted arrangement. Insertion from the right
  computes that arrangement: an element goes in front of the first element that does
  not have to come before it. For a comparator that is not consistent the language
  leaves the order to the implementation, and \<open>array_sort\<close> stands for one
  implementation among others.
\<close>

fun insert_sorted :: "('a \<Rightarrow> 'a \<Rightarrow> int) \<Rightarrow> 'a \<Rightarrow> 'a list \<Rightarrow> 'a list" where
  "insert_sorted cmp x [] = [x]"
| "insert_sorted cmp x (y # ys) =
     (if cmp x y \<le> 0 then x # y # ys else y # insert_sorted cmp x ys)"

definition array_sort :: "('a \<Rightarrow> 'a \<Rightarrow> int) \<Rightarrow> 'a list \<Rightarrow> 'a list" where
  "array_sort cmp xs = foldr (insert_sorted cmp) xs []"

text \<open>The comparator that \<open>sort\<close> passes to \<open>Array.prototype.sort\<close>.\<close>

definition compare_threads ::
  "(Annotation \<Rightarrow> Annotation \<Rightarrow> bool) \<Rightarrow> thread_state thread \<Rightarrow> thread_state thread \<Rightarrow> int" where
  "compare_threads compareFn a b =
     (case (annotation (state a), annotation (state b)) of
        (None, None) \<Rightarrow> 0
      | (None, Some y) \<Rightarrow> - 1
      | (Some x, None) \<Rightarrow> 1
      | (Some x, Some y) \<Rightarrow>
          if compareFn x y then - 1 else if compareFn y x then 1 else 0)"

definition sort_threads ::
  "thread_state thread list \<Rightarrow> (Annotation \<Rightarrow> Annotation \<Rightarrow> bool) \<Rightarrow> thread_state thread list" where
  "sort_threads threads compareFn = array_sort (compare_threads compareFn) threads"

fun sortThread ::
  "thread_state thread \<Rightarrow> (Annotation \<Rightarrow> Annotation \<Rightarrow> bool)
     \<Rightarrow> (Annotation \<Rightarrow> Annotation \<Rightarrow> bool) \<Rightarrow> thread_state thread" where
  "sortThread (Thread s cs) compareFn replyCompareFn =
     Thread s
       (sort_threads (map (\<lambda>child. sortThread child replyCompareFn replyCompareFn) cs)
          compareFn)"

section \<open>Reply counts and depth\<close>

fun countRepliesAndDepth :: "thread_state thread \<Rightarrow> int \<Rightarrow> counted_state thread" where
  "countRepliesAndDepth (Thread s cs) d =
     (let counted = map (\<lambda>c. countRepliesAndDepth c (d + 1)) cs;
          total = foldl (\<lambda>total child. total + 1 + replyCount (state child)) 0 counted
      in Thread (thread_state.extend s \<lparr>depth = d, replyCount = total\<rparr>) counted)"

section \<open>Options\<close>

text \<open>
  Every option may be omitted (\<open>None\<close>). \<open>{ ...defaultOpts, ...options }\<close> gives
  \<open>selected\<close>, \<open>expanded\<close>, \<open>highlighted\<close> and the two comparison functions a
  default; the other three stay undefined when omitted. The thread-level filter
  receives a shared \<open>Thread\<close> object, which the model passes together with the table
  that its \<open>children\<close> refer to.
\<close>

record options =
  selected :: "string list option"
  forceVisible :: "string list option"
  filterFn :: "(Annotation \<Rightarrow> bool) option"
  threadFilterFn :: "(threads \<Rightarrow> thread_obj \<Rightarrow> bool) option"
  expanded :: "(string \<rightharpoonup> bool) option"
  highlighted :: "string list option"
  sortCompareFn :: "(Annotation \<Rightarrow> Annotation \<Rightarrow> bool) option"
  replySortCompareFn :: "(Annotation \<Rightarrow> Annotation \<Rightarrow> bool) option"

text \<open>\<open><\<close> on two strings compares them unit by unit; with an undefined operand it is false.\<close>

fun string_lt :: "string \<Rightarrow> string \<Rightarrow> bool" where
  "string_lt [] [] = False"
| "string_lt [] (y # ys) = True"
| "string_lt (x # xs) [] = False"
| "string_lt (x # xs) (y # ys) =
     (if x = y then string_lt xs ys else (of_char x :: int) < of_char y)"

definition default_sortCompareFn :: "Annotation \<Rightarrow> Annotation \<Rightarrow> bool" where
  "default_sortCompareFn a b =
     (case (id_a a, id_a b) of (Some x, Some y) \<Rightarrow> string_lt x y | _ \<Rightarrow> False)"

definition default_replySortCompareFn :: "Annotation \<Rightarrow> Annotation \<Rightarrow> bool" where
  "default_replySortCompareFn a b = string_lt (created a) (created b)"

definition opts_selected :: "options \<Rightarrow> string list" where
  "opts_selected options = (case selected options of None \<Rightarrow> [] | Some ids \<Rightarrow> ids)"

definition opts_expanded :: "options \<Rightarrow> (string \<rightharpoonup> bool)" where
  "opts_expanded options = (case expanded options of None \<Rightarrow> Map.empty | Some m \<Rightarrow> m)"

definition opts_highlighted :: "options \<Rightarrow> string list" where
  "opts_highlighted options = (case highlighted options of None \<Rightarrow> [] | Some ids \<Rightarrow> ids)"

definition opts_sortCompareFn :: "options \<Rightarrow> Annotation \<Rightarrow> Annotation \<Rightarrow> bool" where
  "opts_sortCompareFn options =
     (case sortCompareFn options of None \<Rightarrow> default_sortCompareFn | Some f \<Rightarrow> f)"

definition opts_replySortCompareFn :: "options \<Rightarrow> Annotation \<Rightarrow> Annotation \<Rightarrow> bool" where
  "opts_replySortCompareFn options =
     (case replySortCompareFn options of None \<Rightarrow> default_replySortCompareFn | Some f \<Rightarrow> f)"

definition annotationsFiltered :: "options \<Rightarrow> bool" where
  "annotationsFiltered opts = (filterFn opts \<noteq> None)"

definition threadsFiltered :: "options \<Rightarrow> bool" where
  "threadsFiltered opts = (threadFilterFn opts \<noteq> None)"

definition hasHighlights :: "options \<Rightarrow> bool" where
  "hasHighlights opts = (length (opts_highlighted opts) > 0)"

definition hasSelected :: "options \<Rightarrow> bool" where
  "hasSelected opts = (length (opts_selected opts) > 0)"

definition hasForcedVisible :: "options \<Rightarrow> bool" where
  "hasForcedVisible opts =
     (case forceVisible opts of None \<Rightarrow> False | Some ids \<Rightarrow> length ids \<noteq> 0)"

section \<open>Thread projector\<close>

definition isVisible :: "options \<Rightarrow> 'a thread_state_scheme \<Rightarrow> bool" where
  "isVisible opts thread =
     (if \<not> visible thread \<or> annotation thread = None then False
      else if hasForcedVisible opts
              \<and> (case (forceVisible opts, annotation thread) of
                    (Some ids, Some a) \<Rightarrow> annotationId a \<in> set ids
                  | _ \<Rightarrow> False)
      then True
      else if annotationsFiltered opts
              \<and> (case (filterFn opts, annotation thread) of
                    (Some f, Some a) \<Rightarrow> \<not> f a
                  | _ \<Rightarrow> False)
      then False
      else True)"

definition set_visible :: "options \<Rightarrow> thread_obj \<Rightarrow> thread_state" where
  "set_visible opts thread = thread_state.truncate (thread\<lparr>visible := isVisible opts thread\<rparr>)"

definition thread_states :: "options \<Rightarrow> thread_state thread \<Rightarrow> thread_state" where
  "thread_states opts thread =
     (let s = state thread;
          s1 = (if hasHighlights opts
                then (if annotation s \<noteq> None \<and> id_t s \<in> set (opts_highlighted opts)
                      then s\<lparr>highlightState := Some Highlight\<rparr>
                      else s\<lparr>highlightState := Some Dim\<rparr>)
                else s)
      in case opts_expanded opts (id_t s) of
           Some e \<Rightarrow> s1\<lparr>collapsed := \<not> e\<rparr>
         | None \<Rightarrow>
             (let hasUnfilteredChildren = (annotationsFiltered opts \<and> hasVisibleChildren thread)
              in s1\<lparr>collapsed := (collapsed s \<and> \<not> hasUnfilteredChildren)\<rparr>))"

definition select_children :: "options \<Rightarrow> threads \<Rightarrow> string list \<Rightarrow> string list" where
  "select_children opts threads cs =
     (if hasSelected opts
      then filter (\<lambda>child. case map_of threads child of
                             None \<Rightarrow> False
                           | Some t \<Rightarrow> id_t t \<in> set (opts_selected opts)) cs
      else cs)"

definition thread_filter_children :: "options \<Rightarrow> threads \<Rightarrow> string list \<Rightarrow> string list" where
  "thread_filter_children opts threads cs =
     (case threadFilterFn opts of
        None \<Rightarrow> cs
      | Some f \<Rightarrow>
          filter (\<lambda>child. case map_of threads child of None \<Rightarrow> False | Some t \<Rightarrow> f threads t) cs)"

definition prune_invisible :: "thread_state thread \<Rightarrow> thread_state thread" where
  "prune_invisible thread =
     Thread (state thread)
       (filter (\<lambda>child. visible (state child) \<or> hasVisibleChildren child) (children thread))"

definition buildThread :: "Annotation list \<Rightarrow> options \<Rightarrow> counted_state thread option" where
  "buildThread annotations opts =
     (case threadAnnotations annotations of
        None \<Rightarrow> None
      | Some (threads, root) \<Rightarrow>
          (let root1 = root\<lparr>children_ids := select_children opts threads (children_ids root)\<rparr>;
               root2 = root1\<lparr>children_ids :=
                         thread_filter_children opts threads (children_ids root1)\<rparr>
           in case mapThread_obj threads root2 (set_visible opts) of
                None \<Rightarrow> None
              | Some thread \<Rightarrow>
                  (let thread1 = prune_invisible thread;
                       thread2 = mapThread thread1 (thread_states opts);
                       thread3 = sortThread thread2 (opts_sortCompareFn opts)
                                   (opts_replySortCompareFn opts)
                   in Some (countRepliesAndDepth thread3 (- 1)))))"

section \<open>Vocabulary of the properties\<close>

text \<open>The threads below a thread, in document order, and the thread with them.\<close>

fun descendants :: "'a thread \<Rightarrow> 'a thread list" where
  "descendants (Thread s cs) = concat (map (\<lambda>c. c # descendants c) cs)"

definition nodes :: "'a thread \<Rightarrow> 'a thread list" where
  "nodes t = t # descendants t"

text \<open>
  What every shared \<open>Thread\<close> object satisfies while the tree is linked: it is visible,
  and when it shows an annotation its id is that annotation's id.
\<close>

definition obj_ok :: "thread_obj \<Rightarrow> bool" where
  "obj_ok t = (visible t \<and> (case annotation t of None \<Rightarrow> True | Some a \<Rightarrow> id_t t = annotationId a))"

definition heap_ok :: "threads \<Rightarrow> bool" where
  "heap_ok threads = (\<forall>t \<in> ran (map_of threads). obj_ok t)"

text \<open>A thread that shows an annotation and whose id is among \<open>ids\<close> is visible.\<close>

definition forced_ok :: "string list \<Rightarrow> 'a thread_state_scheme \<Rightarrow> bool" where
  "forced_ok ids s = (annotation s = None \<or> id_t s \<notin> set ids \<or> visible s)"

text \<open>
  The annotations that a list of sibling threads shows, and what makes a comparison
  function a less-than on them: it is asymmetric, and being not less is transitive (a
  strict weak order, as a comparison of keys is).
\<close>

definition annotations_of :: "thread_state thread list \<Rightarrow> Annotation set" where
  "annotations_of ts = set (List.map_filter (\<lambda>t. annotation (state t)) ts)"

definition less_than_on :: "'a set \<Rightarrow> ('a \<Rightarrow> 'a \<Rightarrow> bool) \<Rightarrow> bool" where
  "less_than_on A lt =
     ((\<forall>a \<in> A. \<forall>b \<in> A. lt a b \<longrightarrow> \<not> lt b a)
      \<and> (\<forall>a \<in> A. \<forall>b \<in> A. \<forall>c \<in> A. \<not> lt a b \<and> \<not> lt b c \<longrightarrow> \<not> lt a c))"

text \<open>
  What the sort pass is to do with one list of sibling threads \<open>xs\<close>, its result being
  \<open>ys\<close>: the result holds the same threads; a thread whose annotation is less than that
  of another comes before it; a thread without annotation comes before every thread with
  one; and threads of the same rank (both without annotation, or with annotations neither
  of which is less than the other) keep their input order.
\<close>

definition same_rank ::
  "(Annotation \<Rightarrow> Annotation \<Rightarrow> bool) \<Rightarrow> thread_state thread \<Rightarrow> thread_state thread \<Rightarrow> bool" where
  "same_rank lt t u =
     (case (annotation (state t), annotation (state u)) of
        (None, None) \<Rightarrow> True
      | (Some a, Some b) \<Rightarrow> \<not> lt a b \<and> \<not> lt b a
      | _ \<Rightarrow> False)"

definition sorted_level ::
  "(Annotation \<Rightarrow> Annotation \<Rightarrow> bool) \<Rightarrow> thread_state thread list \<Rightarrow> thread_state thread list
     \<Rightarrow> bool" where
  "sorted_level lt xs ys =
     (mset ys = mset xs
      \<and> (\<forall>i j. i < length ys \<and> j < length ys
            \<and> (\<exists>a b. annotation (state (ys ! i)) = Some a
                     \<and> annotation (state (ys ! j)) = Some b \<and> lt a b)
            \<longrightarrow> i < j)
      \<and> (\<forall>i j. i < length ys \<and> j < length ys
            \<and> annotation (state (ys ! i)) = None \<and> annotation (state (ys ! j)) \<noteq> None
            \<longrightarrow> i < j)
      \<and> (\<forall>t \<in> set xs. filter (same_rank lt t) ys = filter (same_rank lt t) xs))"

text \<open>
  A comparator is consistent on the elements it is to sort when no two elements are each
  to come after the other, and "not after" is transitive and contains "equal to the same
  element".
\<close>

definition consistent_on :: "'a set \<Rightarrow> ('a \<Rightarrow> 'a \<Rightarrow> int) \<Rightarrow> bool" where
  "consistent_on S cmp =
     ((\<forall>x \<in> S. \<forall>y \<in> S. 0 < cmp x y \<longrightarrow> cmp y x \<le> 0)
      \<and> (\<forall>x \<in> S. \<forall>y \<in> S. \<forall>z \<in> S. cmp x y \<le> 0 \<and> cmp y z \<le> 0 \<longrightarrow> cmp x z \<le> 0)
      \<and> (\<forall>k \<in> S. \<forall>x \<in> S. \<forall>y \<in> S. cmp k x = 0 \<and> cmp k y = 0 \<longrightarrow> cmp x y \<le> 0))"


text \<open>
  The parent chain of a thread ends: following \<open>parent\<close> from it leads to a key without
  thread or to a thread without (truthy) parent. \<open>clear_of\<close> adds that the chain never
  visits \<open>i\<close>.
\<close>

inductive ends :: "threads \<Rightarrow> string \<Rightarrow> bool" for threads where
  missing: "map_of threads k = None \<Longrightarrow> ends threads k"
| top: "map_of threads k = Some t \<Longrightarrow> \<not> truthy (parent t) \<Longrightarrow> ends threads k"
| up: "map_of threads k = Some t \<Longrightarrow> parent t = Some p \<Longrightarrow> p \<noteq> [] \<Longrightarrow> ends threads p
        \<Longrightarrow> ends threads k"

inductive clear_of :: "threads \<Rightarrow> string \<Rightarrow> string \<Rightarrow> bool" for threads i where
  missing: "map_of threads a = None \<Longrightarrow> a \<noteq> i \<Longrightarrow> clear_of threads i a"
| top: "map_of threads a = Some t \<Longrightarrow> \<not> truthy (parent t) \<Longrightarrow> a \<noteq> i \<Longrightarrow> clear_of threads i a"
| up: "map_of threads a = Some t \<Longrightarrow> parent t = Some p \<Longrightarrow> p \<noteq> [] \<Longrightarrow> a \<noteq> i
        \<Longrightarrow> clear_of threads i p \<Longrightarrow> clear_of threads i a"

definition chains_end :: "threads \<Rightarrow> bool" where
  "chains_end threads = (\<forall>k. ends threads k)"

text \<open>The pairs (parent, child) of a table.\<close>

definition parent_rel :: "threads \<Rightarrow> (string \<times> string) set" where
  "parent_rel threads = {(p, k). \<exists>t. map_of threads k = Some t \<and> parent t = Some p \<and> p \<noteq> []}"

text \<open>
  No thread has the empty string as parent, and a thread held in the \<open>children\<close> of
  \<open>k\<close> has \<open>k\<close> as parent.
\<close>

definition forest :: "threads \<Rightarrow> bool" where
  "forest threads =
     ((\<forall>k t. map_of threads k = Some t \<longrightarrow> parent t \<noteq> Some [])
      \<and> (\<forall>k t c. map_of threads k = Some t \<and> c \<in> set (children_ids t)
            \<longrightarrow> (\<exists>u. map_of threads c = Some u \<and> parent u = Some k)))"

text \<open>
  Conditions on a record: in its reference chain followed by its own id no id stands
  next to itself, and no reference is the empty string.
\<close>

definition no_self_reference :: "Annotation \<Rightarrow> bool" where
  "no_self_reference a = distinct_adj (parents_of a @ [annotationId a])"

definition no_empty_reference :: "Annotation \<Rightarrow> bool" where
  "no_empty_reference a = ([] \<notin> set (parents_of a))"

text \<open>
  A record uses plain keys when none of its references is a name that \<open>Object.prototype\<close>
  defines and its own id is not \<open>__proto__\<close> (assigning \<open>threads['__proto__']\<close> replaces the
  prototype of \<open>threads\<close> and creates no key, which the table of the model does not
  follow).
\<close>

definition plain_keys :: "Annotation \<Rightarrow> bool" where
  "plain_keys a = (annotationId a \<noteq> ''__proto__'' \<and> (\<forall>p \<in> set (parents_of a). \<not> inherited p))"





text \<open>Sample inputs.\<close>

definition reply_to :: "string \<Rightarrow> string list \<Rightarrow> Annotation" where
  "reply_to i refs = \<lparr>id_a = Some i, tag_a = ''t'' @ i, references = Some refs, created = i\<rparr>"

definition no_options :: options where
  "no_options =
     \<lparr>selected = None, forceVisible = None, filterFn = None, threadFilterFn = None,
      expanded = None, highlighted = None, sortCompareFn = None, replySortCompareFn = None\<rparr>"

definition reply_chain :: "Annotation list" where
  "reply_chain = [reply_to ''A'' [], reply_to ''B'' [''A''], reply_to ''C'' [''A'', ''B'']]"

definition shown :: "string \<Rightarrow> string \<Rightarrow> thread_state thread" where
  "shown i c =
     Thread (DEFAULT_THREAD_STATE
               \<lparr>id_t := i,
                annotation := Some \<lparr>id_a = Some i, tag_a = [], references = None, created = c\<rparr>\<rparr>) []"

definition self_reply :: "Annotation list" where
  "self_reply = [reply_to ''A'' [''A'']]"

definition reply_to_self_reply :: "Annotation list" where
  "reply_to_self_reply = [reply_to ''A'' [''A''], reply_to ''X'' [''A'']]"

definition self_linked :: threads where
  "self_linked =
     [(''A'', (new_thread (reply_to ''A'' [''A'']))\<lparr>parent := Some ''A'', children_ids := [''A'']\<rparr>),
      (''X'', new_thread (reply_to ''X'' [''A'']))]"


definition orphan_reply :: "Annotation list" where
  "orphan_reply = [reply_to ''B'' [''A'']]"

definition force_placeholder :: options where
  "force_placeholder = no_options\<lparr>forceVisible := Some [''A'', ''__default__'']\<rparr>"

definition force_B_reject_all :: options where
  "force_B_reject_all = no_options\<lparr>forceVisible := Some [''B''], filterFn := Some (\<lambda>a. False)\<rparr>"

definition unsaved :: "string \<Rightarrow> Annotation" where
  "unsaved tag = \<lparr>id_a = None, tag_a = tag, references = None, created = ''1''\<rparr>"

definition unsaved_between :: "Annotation list" where
  "unsaved_between = [reply_to ''b'' [], unsaved ''t1'', reply_to ''a'' []]"

definition two_levels :: "thread_state thread" where
  "two_levels =
     Thread (DEFAULT_THREAD_STATE\<lparr>id_t := ''root''\<rparr>)
       [Thread (state (shown ''b'' ''1'')) [shown ''x'' ''2'', shown ''y'' ''1''],
        shown ''a'' ''2'']"

section \<open>The table of threads while it is linked\<close>

declare setParent.simps [simp del]

lemma traverse_Some:
  "traverse f xs = Some ys \<Longrightarrow> list_all2 (\<lambda>x y. f x = Some y) xs ys"
  by (induction xs arbitrary: ys) (auto split: bind_splits)

lemma link_Some:
  assumes "link threads i p = Some threads'"
  obtains t q where "map_of threads i = Some t"
    and "map_of (AList.update i (t\<lparr>parent := Some p\<rparr>) threads) p = Some q"
    and "threads' = AList.update p (q\<lparr>children_ids := children_ids q @ [i]\<rparr>)
                      (AList.update i (t\<lparr>parent := Some p\<rparr>) threads)"
  using assms by (auto simp: link_def Let_def split: option.splits)

lemma setParent_cases:
  assumes "setParent threads i parents = Some threads'"
  obtains (unchanged) t where "map_of threads i = Some t" "truthy (parent t) \<or> parents = []"
      "threads' = threads"
  | (step) t threads1 ok where "map_of threads i = Some t" "\<not> truthy (parent t)" "parents \<noteq> []"
      "if map_of threads (last parents) = None \<and> \<not> inherited (last parents)
       then setParent (AList.update (last parents) placeholder threads) (last parents)
              (butlast parents) = Some threads1
       else threads1 = threads"
      "hasPathToRoot threads1 i (last parents) = Some ok"
      "if ok then link threads1 i (last parents) = Some threads' else threads' = threads1"
proof -
  note eq = setParent.simps[of threads i parents]
  from assms obtain t where t: "map_of threads i = Some t"
    unfolding eq by (cases "map_of threads i") simp_all
  show thesis
  proof (cases "truthy (parent t) \<or> parents = []")
    case True
    with assms t have "threads' = threads"
      unfolding eq by simp
    with t True show thesis by (rule unchanged)
  next
    case False
    let ?r = "if map_of threads (last parents) = None \<and> \<not> inherited (last parents)
              then setParent (AList.update (last parents) placeholder threads) (last parents)
                     (butlast parents)
              else Some threads"
    from assms t False obtain threads1 where r: "?r = Some threads1"
      unfolding eq by (cases ?r) simp_all
    from assms t False r obtain ok where ok: "hasPathToRoot threads1 i (last parents) = Some ok"
      unfolding eq by (cases "hasPathToRoot threads1 i (last parents)") simp_all
    from assms t False r ok
    have fin: "if ok then link threads1 i (last parents) = Some threads' else threads' = threads1"
      unfolding eq by (simp split: if_splits)
    from r have rec: "if map_of threads (last parents) = None \<and> \<not> inherited (last parents)
       then setParent (AList.update (last parents) placeholder threads) (last parents)
              (butlast parents) = Some threads1
       else threads1 = threads"
      by (cases "map_of threads (last parents) = None \<and> \<not> inherited (last parents)") auto
    from False have "\<not> truthy (parent t)" and "parents \<noteq> []"
      by simp_all
    then show thesis
      using rec ok fin by (rule step[OF t])
  qed
qed

lemma heap_okI: "(\<And>k t. map_of threads k = Some t \<Longrightarrow> obj_ok t) \<Longrightarrow> heap_ok threads"
  by (auto simp: heap_ok_def ran_def)

lemma heap_okD: "heap_ok threads \<Longrightarrow> map_of threads k = Some t \<Longrightarrow> obj_ok t"
  by (auto simp: heap_ok_def ran_def)

lemma heap_ok_update: "heap_ok threads \<Longrightarrow> obj_ok t \<Longrightarrow> heap_ok (AList.update k t threads)"
  by (rule heap_okI) (auto simp: update_conv' dest: heap_okD split: if_splits)

lemma obj_ok_placeholder: "obj_ok placeholder"
  by (simp add: obj_ok_def placeholder_def DEFAULT_THREAD_STATE_def thread_state.extend_def)

lemma obj_ok_new_thread: "obj_ok (new_thread a)"
  by (simp add: obj_ok_def new_thread_def DEFAULT_THREAD_STATE_def thread_state.extend_def)

lemma obj_ok_fields:
  "obj_ok t \<Longrightarrow> obj_ok (t\<lparr>parent := p\<rparr>)"
  "obj_ok t \<Longrightarrow> obj_ok (t\<lparr>children_ids := cs\<rparr>)"
  "obj_ok t \<Longrightarrow> obj_ok (t\<lparr>collapsed := c\<rparr>)"
  by (simp_all add: obj_ok_def split: option.splits)

lemma heap_ok_link:
  assumes "heap_ok threads" "link threads i p = Some threads'"
  shows "heap_ok threads'"
proof -
  from assms(2) obtain t q where t: "map_of threads i = Some t"
    and q: "map_of (AList.update i (t\<lparr>parent := Some p\<rparr>) threads) p = Some q"
    and eq: "threads' = AList.update p (q\<lparr>children_ids := children_ids q @ [i]\<rparr>)
                      (AList.update i (t\<lparr>parent := Some p\<rparr>) threads)"
    by (rule link_Some)
  have "obj_ok t"
    using assms(1) t by (rule heap_okD)
  then have 1: "heap_ok (AList.update i (t\<lparr>parent := Some p\<rparr>) threads)"
    by (intro heap_ok_update obj_ok_fields assms(1))
  then have "obj_ok q"
    using q by (rule heap_okD)
  then have "obj_ok (q\<lparr>children_ids := children_ids q @ [i]\<rparr>)"
    by (rule obj_ok_fields)
  with 1 show ?thesis
    unfolding eq by (rule heap_ok_update)
qed

lemma heap_ok_setParent:
  "heap_ok threads \<Longrightarrow> setParent threads i parents = Some threads' \<Longrightarrow> heap_ok threads'"
proof (induction threads i parents arbitrary: threads' rule: setParent.induct)
  case (1 threads i parents)
  from "1.prems"(2) show ?case
  proof (cases rule: setParent_cases)
    case (unchanged t)
    with "1.prems" show ?thesis by simp
  next
    case (step t threads1 ok)
    have "heap_ok threads1"
    proof (cases "map_of threads (last parents) = None \<and> \<not> inherited (last parents)")
      case True
      with step have "setParent (AList.update (last parents) placeholder threads) (last parents)
              (butlast parents) = Some threads1" by simp
      moreover have "heap_ok (AList.update (last parents) placeholder threads)"
        using "1.prems"(1) obj_ok_placeholder by (rule heap_ok_update)
      moreover have "\<not> (truthy (parent t) \<or> parents = [])"
        using step by simp
      ultimately show ?thesis
        using "1.IH"[OF step(1) _ True] by blast
    next
      case False
      with step "1.prems" show ?thesis by simp
    qed
    with step(6) show ?thesis
      by (cases ok) (simp_all add: heap_ok_link)
  qed
qed

lemma heap_ok_link_threads:
  "heap_ok threads \<Longrightarrow> link_threads threads annotations = Some threads' \<Longrightarrow> heap_ok threads'"
proof (induction annotations arbitrary: threads)
  case Nil
  then show ?case by simp
next
  case (Cons a annotations)
  from Cons.prems(2) obtain threads1 where
    1: "setParent threads (annotationId a) (parents_of a) = Some threads1"
    and 2: "link_threads threads1 annotations = Some threads'"
    by (auto split: option.splits)
  from Cons.prems(1) 1 have "heap_ok threads1" by (rule heap_ok_setParent)
  then show ?case using 2 by (rule Cons.IH)
qed

lemma heap_ok_create_threads: "heap_ok (create_threads annotations)"
proof -
  have "heap_ok acc \<Longrightarrow>
        heap_ok (foldl (\<lambda>threads a. AList.update (annotationId a) (new_thread a) threads) acc annotations)"
    for acc
    by (induction annotations arbitrary: acc) (simp_all add: heap_ok_update obj_ok_new_thread)
  moreover have "heap_ok []"
    by (simp add: heap_ok_def)
  ultimately show ?thesis
    by (simp add: create_threads_def)
qed

lemma heap_ok_collapse_roots:
  assumes "heap_ok threads"
  shows "heap_ok (collapse_roots threads)"
proof (rule heap_okI)
  fix k t
  assume "map_of (collapse_roots threads) k = Some t"
  then obtain t0 where t0: "map_of threads k = Some t0"
    and t: "t = (if truthy (parent t0) then t0 else t0\<lparr>collapsed := True\<rparr>)"
    by (auto simp: collapse_roots_def map_of_map)
  from assms t0 have "obj_ok t0" by (rule heap_okD)
  then show "obj_ok t" unfolding t by (simp add: obj_ok_fields)
qed

lemma heap_ok_threadAnnotations:
  assumes "threadAnnotations annotations = Some (threads, root)"
  shows "heap_ok threads \<and> obj_ok root"
proof -
  from assms obtain threads0 where l: "link_threads (create_threads annotations) annotations = Some threads0"
    and t: "threads = collapse_roots threads0"
    and r: "root = root_thread (filter (is_root_thread threads0) (for_in_keys threads0))"
    by (auto simp: threadAnnotations_def split: option.splits)
  have "heap_ok threads"
    unfolding t
    by (rule heap_ok_collapse_roots) (rule heap_ok_link_threads[OF heap_ok_create_threads l])
  moreover have "obj_ok root"
    unfolding r by (simp add: obj_ok_def root_thread_def DEFAULT_THREAD_STATE_def thread_state.extend_def)
  ultimately show ?thesis ..
qed

section \<open>What the passes do to the threads of a tree\<close>

lemma mapThread_obj_states:
  assumes "mapThread_obj threads t mapFn = Some r"
  shows "set_thread r \<subseteq> mapFn ` insert t (ran (map_of threads))"
proof (rule mapThread_obj.raw_induct[where P = "\<lambda>threads t mapFn r. set_thread r \<subseteq> mapFn ` insert t (ran (map_of threads))", OF _ assms])
  fix f threads t r and mapFn :: "thread_obj \<Rightarrow> thread_state"
  assume IH: "\<And>threads t mapFn r. f threads t mapFn = Some r
                \<Longrightarrow> set_thread r \<subseteq> mapFn ` insert t (ran (map_of threads))"
    and prem: "Option.bind
      (traverse (\<lambda>k. case map_of threads k of None \<Rightarrow> None | Some child \<Rightarrow> f threads child mapFn)
         (children_ids t))
      (\<lambda>cs. Some (Thread (mapFn t) cs)) = Some r"
  from prem obtain cs where
    cs: "traverse (\<lambda>k. case map_of threads k of None \<Rightarrow> None | Some child \<Rightarrow> f threads child mapFn)
           (children_ids t) = Some cs"
    and r: "r = Thread (mapFn t) cs"
    by (auto split: bind_splits)
  have "set_thread c \<subseteq> mapFn ` ran (map_of threads)" if "c \<in> set cs" for c
  proof -
    from traverse_Some[OF cs] that obtain k where
      "(case map_of threads k of None \<Rightarrow> None | Some child \<Rightarrow> f threads child mapFn) = Some c"
      by (auto simp: list_all2_conv_all_nth in_set_conv_nth)
    then obtain child where "map_of threads k = Some child" "f threads child mapFn = Some c"
      by (auto split: option.splits)
    with IH[of threads child mapFn c] show ?thesis
      by (auto simp: ran_def)
  qed
  then show "set_thread r \<subseteq> mapFn ` insert t (ran (map_of threads))"
    unfolding r by auto
qed

lemma nodes_Thread: "nodes (Thread s cs) = Thread s cs # concat (map nodes cs)"
  unfolding nodes_def by simp

lemma state_nodes: "n \<in> set (nodes t) \<Longrightarrow> state n \<in> set_thread t"
  by (induction t arbitrary: n) (auto simp: nodes_Thread)

lemma states_prune_invisible: "set_thread (prune_invisible t) \<subseteq> set_thread t"
  by (cases t) (auto simp: prune_invisible_def)

lemma states_mapThread: "set_thread (mapThread t f) \<subseteq> f ` set (nodes t)"
proof (induction t)
  case (Thread s cs)
  have "set_thread (mapThread c f) \<subseteq> f ` set (nodes (Thread s cs))" if "c \<in> set cs" for c
  proof -
    have "set (nodes c) \<subseteq> set (nodes (Thread s cs))"
      using that by (auto simp: nodes_Thread)
    with Thread[OF that] show ?thesis by blast
  qed
  then show ?case
    by (auto simp: nodes_Thread)
qed

lemma set_insert_sorted: "set (insert_sorted cmp x ys) = insert x (set ys)"
  by (induction ys) auto

lemma set_array_sort: "set (array_sort cmp xs) = set xs"
  by (induction xs) (simp_all add: array_sort_def set_insert_sorted)

lemma states_sortThread: "set_thread (sortThread t c r) = set_thread t"
  by (induction t c r rule: sortThread.induct) (simp add: sort_threads_def set_array_sort)

section \<open>Links between threads\<close>










lemma link_keeps_keys:
  "link threads i p = Some threads' \<Longrightarrow> map_of threads k \<noteq> None \<Longrightarrow> map_of threads' k \<noteq> None"
  by (erule link_Some) (auto simp: update_conv')

lemma setParent_keeps_keys:
  "setParent threads i parents = Some threads' \<Longrightarrow> map_of threads k \<noteq> None
     \<Longrightarrow> map_of threads' k \<noteq> None"
proof (induction threads i parents arbitrary: threads' rule: setParent.induct)
  case (1 threads i parents)
  from "1.prems"(1) show ?case
  proof (cases rule: setParent_cases)
    case (unchanged t)
    with "1.prems" show ?thesis by simp
  next
    case (step t threads1 ok)
    have k1: "map_of threads1 k \<noteq> None"
    proof (cases "map_of threads (last parents) = None \<and> \<not> inherited (last parents)")
      case True
      with step have "setParent (AList.update (last parents) placeholder threads) (last parents)
              (butlast parents) = Some threads1" by simp
      moreover have "map_of (AList.update (last parents) placeholder threads) k \<noteq> None"
        using "1.prems"(2) by (simp add: update_conv')
      moreover have "\<not> (truthy (parent t) \<or> parents = [])"
        using step by simp
      ultimately show ?thesis
        using "1.IH"[OF step(1) _ True] by blast
    next
      case False
      with step "1.prems" show ?thesis by simp
    qed
    with step(6) show ?thesis
      by (cases ok) (simp_all add: link_keeps_keys)
  qed
qed


lemma create_threads_keys:
  "b \<in> set annotations \<Longrightarrow> map_of (create_threads annotations) (annotationId b) \<noteq> None"
proof -
  have "map_of acc (annotationId b) \<noteq> None \<or> b \<in> set annotations \<Longrightarrow>
        map_of (foldl (\<lambda>threads a. AList.update (annotationId a) (new_thread a) threads) acc
                  annotations) (annotationId b) \<noteq> None" for acc
  proof (induction annotations arbitrary: acc)
    case Nil
    then show ?case by simp
  next
    case (Cons a annotations)
    show ?case
      unfolding foldl_Cons
      by (rule Cons.IH) (use Cons.prems in \<open>auto simp: update_conv'\<close>)
  qed
  then show "b \<in> set annotations \<Longrightarrow> map_of (create_threads annotations) (annotationId b) \<noteq> None"
    by (simp add: create_threads_def)
qed



text \<open>
  C4. The placeholder that \<open>setParent\<close> creates for the missing parent \<open>A\<close> of \<open>B\<close> is
  stored under the key \<open>A\<close>, has no annotation and holds \<open>B\<close> as child, but its \<open>id\<close>
  is the default \<open>__default__\<close>, not \<open>A\<close>.
\<close>

theorem placeholder_id_default:
  "threadAnnotations orphan_reply \<noteq> None
   \<and> map (\<lambda>(k, t). (k, id_t t, annotation t = None, children_ids t))
        (fst (the (threadAnnotations orphan_reply)))
       = [(''B'', ''B'', False, []), (''A'', ''__default__'', True, [''B''])]"
  by code_simp

section \<open>Self-reference\<close>

lemma hasPathToRoot_self_linked: "hasPathToRoot self_linked ''X'' ''A'' = None"
proof (cases "hasPathToRoot self_linked ''X'' ''A''")
  case None
  then show ?thesis .
next
  case (Some y)
  have "\<not> (threads = self_linked \<and> i = ''X'' \<and> ancestorId = ''A'')"
    if "hasPathToRoot threads i ancestorId = Some y" for threads i ancestorId y
    using that
  proof (rule hasPathToRoot.raw_induct[where P = "\<lambda>threads i ancestorId y.
           \<not> (threads = self_linked \<and> i = ''X'' \<and> ancestorId = ''A'')", rotated 1])
    fix f threads i ancestorId y
    assume IH: "\<And>threads i ancestorId y. f threads i ancestorId = Some y \<Longrightarrow>
                 \<not> (threads = self_linked \<and> i = ''X'' \<and> ancestorId = ''A'')"
      and body: "(case map_of threads ancestorId of
                    None \<Rightarrow> Some (inherited ancestorId)
                  | Some a \<Rightarrow>
                      (case parent a of
                         None \<Rightarrow> Some True
                       | Some p \<Rightarrow>
                           if p = i then Some False
                           else if p = [] then Some True
                           else f threads i p)) = Some y"
    show "\<not> (threads = self_linked \<and> i = ''X'' \<and> ancestorId = ''A'')"
    proof
      assume eq: "threads = self_linked \<and> i = ''X'' \<and> ancestorId = ''A''"
      with body have "f self_linked ''X'' ''A'' = Some y"
        by (simp add: self_linked_def)
      from IH[OF this] show False by simp
    qed
  qed
  from this[OF Some] show ?thesis by simp
qed

lemma self_linked_reached:
  "setParent (create_threads reply_to_self_reply) ''A'' [''A''] = Some self_linked"
  by code_simp

lemma setParent_self_linked: "setParent self_linked ''X'' [''A''] = None"
proof -
  have x: "map_of self_linked ''X'' = Some (new_thread (reply_to ''X'' [''A'']))"
    and a: "map_of self_linked ''A'' \<noteq> None"
    by (simp_all add: self_linked_def)
  have p: "\<not> truthy (parent (new_thread (reply_to ''X'' [''A''])))"
    by (simp add: new_thread_def truthy_def DEFAULT_THREAD_STATE_def thread_state.extend_def)
  show ?thesis
    by (subst setParent.simps) (simp add: x a p hasPathToRoot_self_linked)
qed

text \<open>
  C2. For an annotation \<open>A\<close> that names itself as parent, followed by a reply \<open>X\<close> to
  \<open>A\<close>: linking \<open>A\<close> leaves a table in which \<open>A\<close> is its own parent; on that table the
  walk of \<open>hasPathToRoot\<close> from \<open>A\<close> on behalf of \<open>X\<close> does not return, and neither does
  \<open>buildThread\<close>, whatever the options.
\<close>

theorem buildThread_self_reference_diverges:
  "setParent (create_threads reply_to_self_reply) ''A'' [''A''] = Some self_linked
   \<and> hasPathToRoot self_linked ''X'' ''A'' = None
   \<and> buildThread reply_to_self_reply opts = None"
proof -
  have "link_threads (create_threads reply_to_self_reply) reply_to_self_reply = None"
  proof -
    have ids: "annotationId (reply_to ''A'' [''A'']) = ''A''" "parents_of (reply_to ''A'' [''A'']) = [''A'']"
      "annotationId (reply_to ''X'' [''A'']) = ''X''" "parents_of (reply_to ''X'' [''A'']) = [''A'']"
      by (simp_all add: annotationId_def parents_of_def reply_to_def)
    have "link_threads (create_threads reply_to_self_reply) reply_to_self_reply
        = (case setParent (create_threads reply_to_self_reply) ''A'' [''A''] of
             None \<Rightarrow> None
           | Some threads1 \<Rightarrow> link_threads threads1 [reply_to ''X'' [''A'']])"
      by (subst (2) reply_to_self_reply_def) (simp add: ids)
    also have "\<dots> = None"
      by (simp add: self_linked_reached ids setParent_self_linked)
    finally show ?thesis .
  qed
  then have "buildThread reply_to_self_reply opts = None"
    by (simp add: buildThread_def threadAnnotations_def)
  with self_linked_reached hasPathToRoot_self_linked show ?thesis
    by simp
qed

text \<open>
  C1. For the single annotation \<open>A\<close> that names itself as parent, \<open>threadAnnotations\<close>
  makes \<open>A\<close> its own parent and its own child; no thread is left without parent, so the
  root that \<open>buildThread\<close> returns has no children and the annotation is lost.
\<close>

theorem self_reference_own_parent:
  "threadAnnotations self_reply \<noteq> None
   \<and> map (\<lambda>(k, t). (k, parent t, children_ids t)) (fst (the (threadAnnotations self_reply)))
       = [(''A'', Some ''A'', [''A''])]
   \<and> children_ids (snd (the (threadAnnotations self_reply))) = []
   \<and> map_option children (buildThread self_reply no_options) = Some []"
  by code_simp

text \<open>
  An empty string as reference has a related effect, because \<open>setParent\<close> and the
  collection of the root's children test \<open>parent\<close> for truthiness: the reply \<open>X\<close> to
  a missing parent with the empty id is linked below the placeholder and, its \<open>parent\<close>
  being falsy, is collected below the root as well, so the returned tree holds it twice.
\<close>

lemma empty_reference_two_parents:
  "map_option
     (\<lambda>t. map (\<lambda>c. (id_t (state c), map (\<lambda>g. id_t (state g)) (children c))) (children t))
     (buildThread [reply_to ''X'' [[]]] no_options)
   = Some [(''__default__'', [''X'']), (''X'', [])]"
  by code_simp

section \<open>Inherited keys\<close>

text \<open>
  A reference that names a property of \<open>Object.prototype\<close>, when no record has that id: the
  inherited value is truthy, so no placeholder is made and \<open>hasPathToRoot\<close> answers true;
  then \<open>threads[parentId].children.push\<close> throws, as the value has no \<open>children\<close>.
\<close>

lemma inherited_reference_throws:
  "hasPathToRoot (create_threads [reply_to ''B'' [''constructor'']]) ''B'' ''constructor'' = Some True
   \<and> threadAnnotations [reply_to ''B'' [''constructor'']] = None
   \<and> buildThread [reply_to ''B'' [''constructor'']] no_options = None"
  by code_simp

section \<open>Termination when no record refers to itself\<close>

text \<open>
  The self-link is the only way to make \<open>hasPathToRoot\<close> loop: when no reference chain
  repeats an id next to itself (the record's own id included) every parent chain ends.
  When moreover the records use plain keys the linking pass returns; when also no
  reference is the empty string the \<open>children\<close> mirror the \<open>parent\<close> properties, the copy
  made by \<open>mapThread\<close> returns, and so does \<open>buildThread\<close>.
\<close>

lemma hasPathToRoot_ends: "ends threads a \<Longrightarrow> \<exists>r. hasPathToRoot threads i a = Some r"
proof (induction rule: ends.induct)
  case (missing k)
  then have "hasPathToRoot threads i k = Some (inherited k)"
    by (subst hasPathToRoot.simps) simp
  then show ?case ..
next
  case (top k t)
  then have "hasPathToRoot threads i k = Some (parent t \<noteq> Some i)"
    by (subst hasPathToRoot.simps) (auto simp: truthy_def split: option.splits)
  then show ?case ..
next
  case (up k t p)
  then obtain r where "hasPathToRoot threads i p = Some r" by blast
  with up have "hasPathToRoot threads i k = Some (if p = i then False else r)"
    by (subst hasPathToRoot.simps) simp
  then show ?case ..
qed

lemma hasPathToRoot_clear:
  assumes "hasPathToRoot threads i a = Some True" "a \<noteq> i"
  shows "clear_of threads i a"
proof -
  have "r \<longrightarrow> a \<noteq> i \<longrightarrow> clear_of threads i a"
    if "hasPathToRoot threads i a = Some r" for r
    using that
  proof (rule hasPathToRoot.raw_induct[where P = "\<lambda>threads i a r.
           r \<longrightarrow> a \<noteq> i \<longrightarrow> clear_of threads i a", rotated 1])
    fix f threads i a r
    assume IH: "\<And>threads i a r. f threads i a = Some r \<Longrightarrow> r \<longrightarrow> a \<noteq> i \<longrightarrow> clear_of threads i a"
      and body: "(case map_of threads a of
                    None \<Rightarrow> Some (inherited a)
                  | Some t \<Rightarrow>
                      (case parent t of
                         None \<Rightarrow> Some True
                       | Some p \<Rightarrow>
                           if p = i then Some False
                           else if p = [] then Some True
                           else f threads i p)) = Some r"
    show "r \<longrightarrow> a \<noteq> i \<longrightarrow> clear_of threads i a"
    proof (intro impI)
      assume r and ai: "a \<noteq> i"
      show "clear_of threads i a"
      proof (cases "map_of threads a")
        case None
        then show ?thesis using ai by (rule clear_of.missing)
      next
        case t: (Some t)
        show ?thesis
        proof (cases "parent t")
          case None
          with t ai show ?thesis by (auto intro: clear_of.top simp: truthy_def)
        next
          case (Some p)
          show ?thesis
          proof (cases "p = []")
            case True
            with Some t ai show ?thesis by (auto intro: clear_of.top simp: truthy_def)
          next
            case False
            from body t Some \<open>r\<close> have pi: "p \<noteq> i"
              by (auto split: if_splits)
            with body t Some False have "f threads i p = Some r" by simp
            from IH[OF this] \<open>r\<close> pi have "clear_of threads i p" by simp
            with t Some False ai show ?thesis by (rule clear_of.up)
          qed
        qed
      qed
    qed
  qed
  from this[OF assms(1)] assms(2) show ?thesis by simp
qed

lemma link_parent:
  assumes "link threads i p = Some threads'"
  shows "map_of threads k = None \<Longrightarrow> map_of threads' k = None"
    and "map_of threads k = Some t \<Longrightarrow>
           \<exists>t'. map_of threads' k = Some t' \<and> parent t' = (if k = i then Some p else parent t)"
  using assms by (elim link_Some; auto simp: update_conv' split: if_splits)+

lemma link_total:
  "map_of threads i \<noteq> None \<Longrightarrow> map_of threads p \<noteq> None \<Longrightarrow> \<exists>threads'. link threads i p = Some threads'"
  by (auto simp: link_def Let_def update_conv')

lemma link_parent_other:
  assumes "link threads i p = Some threads'" "map_of threads k = Some t" "k \<noteq> i"
  obtains t' where "map_of threads' k = Some t'" "parent t' = parent t"
  using link_parent(2)[OF assms(1,2)] assms(3) by auto

lemma clear_link:
  assumes "clear_of threads i a" "link threads i p = Some threads'"
  shows "ends threads' a"
  using assms(1)
proof (induction rule: clear_of.induct)
  case (missing a)
  from assms(2) missing(1) have "map_of threads' a = None"
    by (rule link_parent(1))
  then show ?case by (rule ends.missing)
next
  case (top a t)
  from assms(2) top(1,3) obtain t' where t': "map_of threads' a = Some t'" "parent t' = parent t"
    by (rule link_parent_other)
  from t'(1) show ?case
    by (rule ends.top) (simp add: t'(2) top(2))
next
  case (up a t q)
  from assms(2) up(1,4) obtain t' where t': "map_of threads' a = Some t'" "parent t' = parent t"
    by (rule link_parent_other)
  from t'(1) show ?case
    by (rule ends.up[where p = q]) (simp_all add: t'(2) up)
qed

lemma ends_link:
  assumes all: "chains_end threads" and ok: "hasPathToRoot threads i p = Some True"
    and ip: "i \<noteq> p" and l: "link threads i p = Some threads'"
  shows "chains_end threads'"
proof -
  have p: "ends threads' p"
    using hasPathToRoot_clear[OF ok ip[symmetric]] l by (rule clear_link)
  from l obtain t where t: "map_of threads i = Some t"
    by (cases "map_of threads i") (simp_all add: link_def)
  from link_parent(2)[OF l t] obtain t' where t': "map_of threads' i = Some t'" "parent t' = Some p"
    by auto
  have i: "ends threads' i"
  proof (cases "p = []")
    case True
    from t'(1) show ?thesis
      by (rule ends.top) (simp add: t'(2) True truthy_def)
  next
    case False
    from t'(1) t'(2) False p show ?thesis
      by (rule ends.up)
  qed
  have "ends threads' k" if "ends threads k" for k
    using that
  proof (induction rule: ends.induct)
    case (missing k)
    then show ?case by (intro ends.missing link_parent(1)[OF l])
  next
    case (top k t)
    show ?case
    proof (cases "k = i")
      case True
      with i show ?thesis by simp
    next
      case False
      with l top(1) obtain u where u: "map_of threads' k = Some u" "parent u = parent t"
        by (rule link_parent_other)
      from u(1) show ?thesis
        by (rule ends.top) (simp add: u(2) top(2))
    qed
  next
    case (up k t q)
    show ?case
    proof (cases "k = i")
      case True
      with i show ?thesis by simp
    next
      case False
      with l up(1) obtain u where u: "map_of threads' k = Some u" "parent u = parent t"
        by (rule link_parent_other)
      from u(1) show ?thesis
        by (rule ends.up[where p = q]) (simp_all add: u(2) up)
    qed
  qed
  then show ?thesis
    using all unfolding chains_end_def by blast
qed

lemma ends_update_fresh:
  assumes "ends threads k" "map_of threads j = None" "\<not> truthy (parent v)"
  shows "ends (AList.update j v threads) k"
  using assms(1)
proof (induction rule: ends.induct)
  case (missing k)
  show ?case
  proof (cases "k = j")
    case True
    have "map_of (AList.update j v threads) k = Some v"
      by (simp add: update_conv' True)
    then show ?thesis using assms(3) by (rule ends.top)
  next
    case False
    with missing have "map_of (AList.update j v threads) k = None"
      by (simp add: update_conv')
    then show ?thesis by (rule ends.missing)
  qed
next
  case (top k t)
  with assms(2) have "map_of (AList.update j v threads) k = Some t"
    by (auto simp: update_conv')
  then show ?case using top(2) by (rule ends.top)
next
  case (up k t p)
  with assms(2) have "map_of (AList.update j v threads) k = Some t"
    by (auto simp: update_conv')
  then show ?case using up(2,3,5) by (rule ends.up)
qed

lemma chains_end_placeholder:
  assumes "chains_end threads" "map_of threads j = None"
  shows "chains_end (AList.update j placeholder threads)"
proof -
  have "\<not> truthy (parent placeholder)"
    by (simp add: placeholder_def truthy_def DEFAULT_THREAD_STATE_def thread_state.extend_def)
  with assms show ?thesis
    unfolding chains_end_def by (blast intro: ends_update_fresh)
qed

lemma chains_end_create_threads: "chains_end (create_threads annotations)"
proof -
  have "\<forall>t \<in> ran (map_of (create_threads annotations)). parent t = None"
  proof -
    have "\<forall>t \<in> ran (map_of acc). parent t = None \<Longrightarrow>
          \<forall>t \<in> ran (map_of (foldl (\<lambda>threads a. AList.update (annotationId a) (new_thread a) threads)
                                 acc annotations)). parent t = None" for acc
    proof (induction annotations arbitrary: acc)
      case Nil
      then show ?case by simp
    next
      case (Cons a annotations)
      have "parent (new_thread a) = None"
        by (simp add: new_thread_def DEFAULT_THREAD_STATE_def thread_state.extend_def)
      with Cons.prems
      have "\<forall>t \<in> ran (map_of (AList.update (annotationId a) (new_thread a) acc)). parent t = None"
        by (auto simp: update_conv' ran_def split: if_splits)
      from Cons.IH[OF this] show ?case by simp
    qed
    from this[of "[]"] show ?thesis by (simp add: create_threads_def)
  qed
  then have "ends (create_threads annotations) k" for k
  proof (cases "map_of (create_threads annotations) k")
    case None
    then show ?thesis by (rule ends.missing)
  next
    case (Some t)
    assume "\<forall>t \<in> ran (map_of (create_threads annotations)). parent t = None"
    with Some have "parent t = None" by (auto simp: ran_def)
    then have "\<not> truthy (parent t)" by (simp add: truthy_def)
    with Some show ?thesis by (rule ends.top)
  qed
  then show ?thesis by (simp add: chains_end_def)
qed

lemma setParent_total:
  "chains_end threads \<Longrightarrow> map_of threads i \<noteq> None \<Longrightarrow> distinct_adj (parents @ [i])
     \<Longrightarrow> \<forall>p \<in> set parents. \<not> inherited p
     \<Longrightarrow> \<exists>threads'. setParent threads i parents = Some threads' \<and> chains_end threads'"
proof (induction threads i parents rule: setParent.induct)
  case (1 threads i parents)
  from "1.prems"(2) obtain t where t: "map_of threads i = Some t" by auto
  show ?case
  proof (cases "truthy (parent t) \<or> parents = []")
    case True
    with t have "setParent threads i parents = Some threads"
      by (subst setParent.simps) simp
    with "1.prems"(1) show ?thesis by simp
  next
    case False
    then have ne: "parents \<noteq> []" by simp
    from ne obtain ps p where parents: "parents = ps @ [p]"
      by (cases parents rule: rev_cases) simp_all
    from "1.prems"(3) have "distinct_adj (ps @ [p]) \<and> p \<noteq> i"
      unfolding parents by (simp add: distinct_adj_append_iff)
    then have adj: "distinct_adj (butlast parents @ [last parents])"
      and il: "i \<noteq> last parents"
      unfolding parents by auto
    from "1.prems"(4) have own: "\<not> inherited (last parents)"
      and rest: "\<forall>p \<in> set (butlast parents). \<not> inherited p"
      unfolding parents by auto
    define r where "r = (if map_of threads (last parents) = None \<and> \<not> inherited (last parents)
      then setParent (AList.update (last parents) placeholder threads) (last parents) (butlast parents)
      else Some threads)"
    have "\<exists>threads1. r = Some threads1 \<and> chains_end threads1 \<and> map_of threads1 i \<noteq> None
            \<and> map_of threads1 (last parents) \<noteq> None"
    proof (cases "map_of threads (last parents) = None \<and> \<not> inherited (last parents)")
      case True
      let ?u = "AList.update (last parents) placeholder threads"
      have "chains_end ?u"
        using "1.prems"(1) conjunct1[OF True] by (rule chains_end_placeholder)
      moreover have k: "map_of ?u (last parents) \<noteq> None" "map_of ?u i \<noteq> None"
        using t by (simp_all add: update_conv')
      ultimately obtain threads1 where
        s: "setParent ?u (last parents) (butlast parents) = Some threads1" and "chains_end threads1"
        using "1.IH"[OF t False True] adj rest by blast
      moreover have "map_of threads1 i \<noteq> None"
        using s k(2) by (rule setParent_keeps_keys)
      moreover have "map_of threads1 (last parents) \<noteq> None"
        using s k(1) by (rule setParent_keeps_keys)
      ultimately show ?thesis
        using True by (simp add: r_def)
    next
      case False
      then have "r = Some threads" unfolding r_def by auto
      moreover from False own have "map_of threads (last parents) \<noteq> None" by simp
      ultimately show ?thesis using "1.prems"(1) t by blast
    qed
    then obtain threads1 where r: "r = Some threads1" and c1: "chains_end threads1"
      and i1: "map_of threads1 i \<noteq> None" and p1: "map_of threads1 (last parents) \<noteq> None"
      by blast
    from c1 obtain ok where ok: "hasPathToRoot threads1 i (last parents) = Some ok"
      using hasPathToRoot_ends[of threads1 "last parents" i] by (auto simp: chains_end_def)
    have eq: "setParent threads i parents
                = (if ok then link threads1 i (last parents) else Some threads1)"
      by (subst setParent.simps) (use t False r ok in \<open>simp add: r_def\<close>)
    show ?thesis
    proof (cases ok)
      case True
      from link_total[OF i1 p1] obtain threads' where l: "link threads1 i (last parents) = Some threads'"
        by blast
      from ok True have "hasPathToRoot threads1 i (last parents) = Some True"
        by simp
      with c1 have "chains_end threads'"
        using il l by (rule ends_link)
      with eq True l show ?thesis by simp
    next
      case False
      with eq c1 show ?thesis by simp
    qed
  qed
qed

lemma link_threads_total:
  assumes "chains_end threads"
    and "\<forall>a \<in> set annotations. map_of threads (annotationId a) \<noteq> None"
    and "\<forall>a \<in> set annotations. no_self_reference a"
    and "\<forall>a \<in> set annotations. plain_keys a"
  shows "\<exists>threads'. link_threads threads annotations = Some threads' \<and> chains_end threads'"
  using assms
proof (induction annotations arbitrary: threads)
  case Nil
  then show ?case by simp
next
  case (Cons a annotations)
  have "map_of threads (annotationId a) \<noteq> None"
    and "distinct_adj (parents_of a @ [annotationId a])"
    and "\<forall>p \<in> set (parents_of a). \<not> inherited p"
    using Cons.prems(2,3,4) by (simp_all add: no_self_reference_def plain_keys_def)
  with Cons.prems(1) obtain threads1 where
    s: "setParent threads (annotationId a) (parents_of a) = Some threads1"
    and c: "chains_end threads1"
    using setParent_total by blast
  have "\<forall>b \<in> set annotations. map_of threads1 (annotationId b) \<noteq> None"
  proof
    fix b assume "b \<in> set annotations"
    with Cons.prems(2) have "map_of threads (annotationId b) \<noteq> None" by simp
    with s show "map_of threads1 (annotationId b) \<noteq> None" by (rule setParent_keeps_keys)
  qed
  moreover have "\<forall>b \<in> set annotations. no_self_reference b"
    using Cons.prems(3) by simp
  moreover have "\<forall>b \<in> set annotations. plain_keys b"
    using Cons.prems(4) by simp
  ultimately obtain threads' where "link_threads threads1 annotations = Some threads'"
    and "chains_end threads'"
    using Cons.IH[OF c] by blast
  with s show ?case by simp
qed


lemma wf_parent_rel:
  assumes "chains_end threads"
  shows "wf (parent_rel threads)"
proof (rule wfUNIVI)
  fix P :: "string \<Rightarrow> bool" and x
  assume H: "\<forall>x. (\<forall>y. (y, x) \<in> parent_rel threads \<longrightarrow> P y) \<longrightarrow> P x"
  from assms have "ends threads x" by (simp add: chains_end_def)
  then show "P x"
  proof (induction rule: ends.induct)
    case (missing k)
    then have "\<forall>y. (y, k) \<notin> parent_rel threads" by (simp add: parent_rel_def)
    with H show ?case by blast
  next
    case (top k t)
    then have "\<forall>y. (y, k) \<notin> parent_rel threads" by (auto simp: parent_rel_def truthy_def)
    with H show ?case by blast
  next
    case (up k t p)
    then have "\<forall>y. (y, k) \<in> parent_rel threads \<longrightarrow> y = p" by (simp add: parent_rel_def)
    with H up.IH show ?case by blast
  qed
qed

lemma finite_parent_rel: "finite (parent_rel threads)"
proof -
  have "parent_rel threads \<subseteq> (\<lambda>(k, t). (the (parent t), k)) ` set threads"
  proof
    fix x assume "x \<in> parent_rel threads"
    then obtain p k t where x: "x = (p, k)" and t: "map_of threads k = Some t" "parent t = Some p"
      by (auto simp: parent_rel_def)
    from t(1) have "(k, t) \<in> set threads" by (rule map_of_SomeD)
    then have "(\<lambda>(k, t). (the (parent t), k)) (k, t) \<in> (\<lambda>(k, t). (the (parent t), k)) ` set threads"
      by (rule imageI)
    with t(2) x show "x \<in> (\<lambda>(k, t). (the (parent t), k)) ` set threads" by simp
  qed
  then show ?thesis by (rule finite_subset) simp
qed

lemma wf_children:
  assumes "chains_end threads"
  shows "wf ((parent_rel threads)\<inverse>)"
  using finite_parent_rel wf_acyclic[OF wf_parent_rel[OF assms]]
  by (rule finite_acyclic_wf_converse)

lemma traverse_total:
  "\<forall>x \<in> set xs. \<exists>y. f x = Some y \<Longrightarrow> \<exists>ys. traverse f xs = Some ys"
proof (induction xs)
  case Nil
  then show ?case by simp
next
  case (Cons x xs)
  from Cons.prems obtain y where y: "f x = Some y" by auto
  from Cons.prems have "\<forall>x \<in> set xs. \<exists>y. f x = Some y" by simp
  then obtain ys where ys: "traverse f xs = Some ys" using Cons.IH by blast
  from y ys have "traverse f (x # xs) = Some (y # ys)" by simp
  then show ?case ..
qed

lemma forest_parent: "forest threads \<Longrightarrow> map_of threads k = Some t \<Longrightarrow> parent t \<noteq> Some []"
  unfolding forest_def by (elim conjE allE [where x = k]) blast

lemma forest_child:
  assumes "forest threads" "map_of threads k = Some t" "c \<in> set (children_ids t)"
  obtains u where "map_of threads c = Some u" "parent u = Some k"
proof -
  from assms(1) have "\<forall>k t c. map_of threads k = Some t \<and> c \<in> set (children_ids t)
            \<longrightarrow> (\<exists>u. map_of threads c = Some u \<and> parent u = Some k)"
    unfolding forest_def by (rule conjunct2)
  then have "map_of threads k = Some t \<and> c \<in> set (children_ids t)
            \<longrightarrow> (\<exists>u. map_of threads c = Some u \<and> parent u = Some k)"
    by (elim allE)
  with assms(2,3) that show thesis by blast
qed

lemma mapThread_obj_total:
  assumes "chains_end threads" "forest threads"
  shows "map_of threads k = Some t \<Longrightarrow> \<exists>r. mapThread_obj threads t mapFn = Some r"
proof (induction k arbitrary: t rule: wf_induct_rule[OF wf_children[OF assms(1)]])
  case (1 k)
  define f where "f = (\<lambda>c. case map_of threads c of
                               None \<Rightarrow> None
                             | Some child \<Rightarrow> mapThread_obj threads child mapFn)"
  have "\<forall>c \<in> set (children_ids t). \<exists>y. f c = Some y"
  proof
    fix c assume c: "c \<in> set (children_ids t)"
    from assms(2) "1.prems" c obtain u where u: "map_of threads c = Some u" "parent u = Some k"
      by (rule forest_child)
    from forest_parent[OF assms(2) u(1)] u(2) have "k \<noteq> []"
      by auto
    with u have "(c, k) \<in> (parent_rel threads)\<inverse>"
      by (simp add: parent_rel_def)
    from "1.IH"[OF this u(1)] obtain y where "mapThread_obj threads u mapFn = Some y" ..
    with u(1) have "f c = Some y" by (simp add: f_def)
    then show "\<exists>y. f c = Some y" ..
  qed
  then obtain cs where cs: "traverse f (children_ids t) = Some cs"
    using traverse_total by blast
  have "mapThread_obj threads t mapFn
          = Option.bind (traverse f (children_ids t)) (\<lambda>cs. Some (Thread (mapFn t) cs))"
    unfolding f_def by (rule mapThread_obj.simps)
  also have "\<dots> = Some (Thread (mapFn t) cs)"
    by (simp add: cs)
  finally show ?case ..
qed

lemma link_fields:
  assumes "link threads i p = Some threads'" "map_of threads k = Some t"
  obtains t' where "map_of threads' k = Some t'"
    and "parent t' = (if k = i then Some p else parent t)"
    and "children_ids t' = (if k = p then children_ids t @ [i] else children_ids t)"
proof -
  from assms(1) obtain ti q where ti: "map_of threads i = Some ti"
    and q: "map_of (AList.update i (ti\<lparr>parent := Some p\<rparr>) threads) p = Some q"
    and eq: "threads' = AList.update p (q\<lparr>children_ids := children_ids q @ [i]\<rparr>)
                      (AList.update i (ti\<lparr>parent := Some p\<rparr>) threads)"
    by (rule link_Some)
  show thesis
  proof (cases "k = p")
    case True
    have 1: "map_of threads' k = Some (q\<lparr>children_ids := children_ids q @ [i]\<rparr>)"
      unfolding eq by (simp add: update_conv' True)
    have 2: "q = (if p = i then ti\<lparr>parent := Some p\<rparr> else t)"
      using q assms(2) True by (simp add: update_conv' split: if_splits)
    from ti assms(2) True have 3: "p = i \<Longrightarrow> ti = t" by simp
    show thesis
      by (rule that[OF 1]) (use 2 3 True in \<open>auto split: if_splits\<close>)
  next
    case False
    show thesis
    proof (cases "k = i")
      case True
      with ti assms(2) have "ti = t" by simp
      with True False have 1: "map_of threads' k = Some (t\<lparr>parent := Some p\<rparr>)"
        unfolding eq by (simp add: update_conv')
      show thesis
        by (rule that[OF 1]) (use True False in simp_all)
    next
      case ki: False
      with False assms(2) have 1: "map_of threads' k = Some t"
        unfolding eq by (simp add: update_conv')
      show thesis
        by (rule that[OF 1]) (use ki False in simp_all)
    qed
  qed
qed

lemma link_back:
  assumes "link threads i p = Some threads'" "map_of threads' k = Some t'"
  obtains t where "map_of threads k = Some t"
    and "parent t' = (if k = i then Some p else parent t)"
    and "children_ids t' = (if k = p then children_ids t @ [i] else children_ids t)"
proof (cases "map_of threads k")
  case None
  with link_parent(1)[OF assms(1)] assms(2) show ?thesis by simp
next
  case (Some t)
  from assms(1) Some obtain u where "map_of threads' k = Some u"
    and "parent u = (if k = i then Some p else parent t)"
    and "children_ids u = (if k = p then children_ids t @ [i] else children_ids t)"
    by (rule link_fields)
  with assms(2) Some that show ?thesis by simp
qed

lemma forest_link:
  assumes f: "forest threads" and i: "map_of threads i = Some ti" "parent ti = None"
    and p: "p \<noteq> []" and l: "link threads i p = Some threads'"
  shows "forest threads'"
  unfolding forest_def
proof (intro conjI allI impI)
  fix k t'
  assume "map_of threads' k = Some t'"
  with l obtain t where t: "map_of threads k = Some t"
    "parent t' = (if k = i then Some p else parent t)"
    by (rule link_back)
  from forest_parent[OF f t(1)] t(2) p show "parent t' \<noteq> Some []"
    by (simp split: if_splits)
next
  fix k t' c
  assume "map_of threads' k = Some t' \<and> c \<in> set (children_ids t')"
  then have k': "map_of threads' k = Some t'" and c: "c \<in> set (children_ids t')" by simp_all
  from l k' obtain t where t: "map_of threads k = Some t"
    "children_ids t' = (if k = p then children_ids t @ [i] else children_ids t)"
    by (rule link_back)
  show "\<exists>u. map_of threads' c = Some u \<and> parent u = Some k"
  proof (cases "c \<in> set (children_ids t)")
    case True
    from f t(1) True obtain u where u: "map_of threads c = Some u" "parent u = Some k"
      by (rule forest_child)
    with i have "c \<noteq> i" by auto
    from l u(1) obtain u' where "map_of threads' c = Some u'"
      "parent u' = (if c = i then Some p else parent u)"
      by (rule link_fields)
    with \<open>c \<noteq> i\<close> u(2) show ?thesis by simp
  next
    case False
    with c t(2) have kp: "k = p" and ci: "c = i"
      by (auto split: if_splits)
    from l i(1) obtain u' where "map_of threads' i = Some u'"
      "parent u' = (if i = i then Some p else parent ti)"
      by (rule link_fields)
    with kp ci show ?thesis by simp
  qed
qed

lemma forest_placeholder:
  assumes f: "forest threads" and j: "map_of threads j = None"
  shows "forest (AList.update j placeholder threads)"
  unfolding forest_def
proof (intro conjI allI impI)
  fix k t
  assume "map_of (AList.update j placeholder threads) k = Some t"
  then have "t = placeholder \<or> map_of threads k = Some t"
    by (simp add: update_conv' split: if_splits)
  moreover have "parent placeholder = None"
    by (simp add: placeholder_def DEFAULT_THREAD_STATE_def thread_state.extend_def)
  ultimately show "parent t \<noteq> Some []"
    using forest_parent[OF f] by auto
next
  fix k t c
  assume "map_of (AList.update j placeholder threads) k = Some t \<and> c \<in> set (children_ids t)"
  then have k: "map_of (AList.update j placeholder threads) k = Some t"
    and c: "c \<in> set (children_ids t)" by simp_all
  have "children_ids placeholder = []"
    by (simp add: placeholder_def DEFAULT_THREAD_STATE_def thread_state.extend_def)
  with k c have kt: "map_of threads k = Some t"
    by (auto simp: update_conv' split: if_splits)
  from f kt c obtain u where u: "map_of threads c = Some u" "parent u = Some k"
    by (rule forest_child)
  with j have "c \<noteq> j" by auto
  with u show "\<exists>u. map_of (AList.update j placeholder threads) c = Some u \<and> parent u = Some k"
    by (simp add: update_conv')
qed

lemma setParent_parent_other:
  "setParent threads i parents = Some threads' \<Longrightarrow> map_of threads k = Some t \<Longrightarrow> k \<noteq> i
     \<Longrightarrow> \<exists>t'. map_of threads' k = Some t' \<and> parent t' = parent t"
proof (induction threads i parents arbitrary: threads' rule: setParent.induct)
  case (1 threads i parents)
  from "1.prems"(1) show ?case
  proof (cases rule: setParent_cases)
    case (unchanged ti)
    with "1.prems"(2) show ?thesis by simp
  next
    case (step ti threads1 ok)
    have "\<exists>t1. map_of threads1 k = Some t1 \<and> parent t1 = parent t"
    proof (cases "map_of threads (last parents) = None \<and> \<not> inherited (last parents)")
      case True
      with step(4) have s: "setParent (AList.update (last parents) placeholder threads)
              (last parents) (butlast parents) = Some threads1" by simp
      from True "1.prems"(2) have kl: "k \<noteq> last parents" by auto
      then have u: "map_of (AList.update (last parents) placeholder threads) k = Some t"
        using "1.prems"(2) by (simp add: update_conv')
      have n: "\<not> (truthy (parent ti) \<or> parents = [])"
        using step(2,3) by simp
      from "1.IH"[OF step(1) n True s u kl] show ?thesis .
    next
      case False
      with step(4) have "threads1 = threads" by simp
      with "1.prems"(2) show ?thesis by simp
    qed
    then obtain t1 where t1: "map_of threads1 k = Some t1" "parent t1 = parent t" by blast
    show ?thesis
    proof (cases ok)
      case True
      with step(6) have l: "link threads1 i (last parents) = Some threads'" by simp
      from l t1(1) "1.prems"(3) obtain t' where "map_of threads' k = Some t'" "parent t' = parent t1"
        by (rule link_parent_other)
      with t1(2) show ?thesis by simp
    next
      case False
      with step(6) have "threads' = threads1" by simp
      with t1 show ?thesis by simp
    qed
  qed
qed

lemma setParent_forest:
  "forest threads \<Longrightarrow> [] \<notin> set parents \<Longrightarrow> setParent threads i parents = Some threads'
     \<Longrightarrow> forest threads'"
proof (induction threads i parents arbitrary: threads' rule: setParent.induct)
  case (1 threads i parents)
  from "1.prems"(3) show ?case
  proof (cases rule: setParent_cases)
    case (unchanged ti)
    with "1.prems"(1) show ?thesis by simp
  next
    case (step ti threads1 ok)
    from forest_parent[OF "1.prems"(1) step(1)] step(2) have pi: "parent ti = None"
      by (cases "parent ti") (simp_all add: truthy_def)
    from step(3) "1.prems"(2) have lp: "last parents \<noteq> []"
      using last_in_set by metis
    have "forest threads1 \<and> (\<exists>t1. map_of threads1 i = Some t1 \<and> parent t1 = None)"
    proof (cases "map_of threads (last parents) = None \<and> \<not> inherited (last parents)")
      case True
      let ?u = "AList.update (last parents) placeholder threads"
      from True step(4) have s: "setParent ?u (last parents) (butlast parents) = Some threads1"
        by simp
      have fu: "forest ?u"
        using "1.prems"(1) conjunct1[OF True] by (rule forest_placeholder)
      have n: "\<not> (truthy (parent ti) \<or> parents = [])"
        using step(2,3) by simp
      have b: "[] \<notin> set (butlast parents)"
        using "1.prems"(2) in_set_butlastD by metis
      from True step(1) have il: "i \<noteq> last parents" by auto
      then have ui: "map_of ?u i = Some ti"
        using step(1) by (simp add: update_conv')
      from "1.IH"[OF step(1) n True fu b s] have "forest threads1" .
      moreover from setParent_parent_other[OF s ui il] pi
      have "\<exists>t1. map_of threads1 i = Some t1 \<and> parent t1 = None" by simp
      ultimately show ?thesis ..
    next
      case False
      with step(4) have "threads1 = threads" by simp
      with "1.prems"(1) step(1) pi show ?thesis by simp
    qed
    then obtain t1 where f1: "forest threads1" and t1: "map_of threads1 i = Some t1" "parent t1 = None"
      by blast
    show ?thesis
    proof (cases ok)
      case True
      with step(6) have "link threads1 i (last parents) = Some threads'" by simp
      with f1 t1 lp show ?thesis by (rule forest_link)
    next
      case False
      with step(6) f1 show ?thesis by simp
    qed
  qed
qed

lemma link_threads_forest:
  "forest threads \<Longrightarrow> \<forall>a \<in> set annotations. no_empty_reference a
     \<Longrightarrow> link_threads threads annotations = Some threads' \<Longrightarrow> forest threads'"
proof (induction annotations arbitrary: threads)
  case Nil
  then show ?case by simp
next
  case (Cons a annotations)
  from Cons.prems(3) obtain threads1 where
    1: "setParent threads (annotationId a) (parents_of a) = Some threads1"
    and 2: "link_threads threads1 annotations = Some threads'"
    by (auto split: option.splits)
  from Cons.prems(2) have e: "[] \<notin> set (parents_of a)"
    by (simp add: no_empty_reference_def)
  from Cons.prems(1) e 1 have "forest threads1" by (rule setParent_forest)
  moreover from Cons.prems(2) have "\<forall>a \<in> set annotations. no_empty_reference a" by simp
  ultimately show ?case using 2 by (rule Cons.IH)
qed

lemma forest_create_threads: "forest (create_threads annotations)"
proof -
  define fresh where "fresh = (\<lambda>threads :: threads.
    \<forall>t \<in> ran (map_of threads). parent t = None \<and> children_ids t = [])"
  have "fresh acc \<Longrightarrow>
        fresh (foldl (\<lambda>threads a. AList.update (annotationId a) (new_thread a) threads) acc
                 annotations)" for acc
  proof (induction annotations arbitrary: acc)
    case Nil
    then show ?case by simp
  next
    case (Cons a annotations)
    have "parent (new_thread a) = None \<and> children_ids (new_thread a) = []"
      by (simp add: new_thread_def DEFAULT_THREAD_STATE_def thread_state.extend_def)
    with Cons.prems have "fresh (AList.update (annotationId a) (new_thread a) acc)"
      unfolding fresh_def by (auto simp: update_conv' ran_def split: if_splits)
    from Cons.IH[OF this] show ?case by simp
  qed
  from this[of "[]"] have "fresh (create_threads annotations)"
    by (simp add: create_threads_def fresh_def)
  then have *: "parent t = None \<and> children_ids t = []"
    if "map_of (create_threads annotations) k = Some t" for k t
    using that unfolding fresh_def ran_def by blast
  show ?thesis
    unfolding forest_def
  proof (intro conjI allI impI)
    fix k t assume "map_of (create_threads annotations) k = Some t"
    from *[OF this] show "parent t \<noteq> Some []" by simp
  next
    fix k t c
    assume "map_of (create_threads annotations) k = Some t \<and> c \<in> set (children_ids t)"
    with * have False by force
    then show "\<exists>u. map_of (create_threads annotations) c = Some u \<and> parent u = Some k" ..
  qed
qed

lemma collapse_roots_lookup:
  "map_of (collapse_roots threads) k
     = map_option (\<lambda>t. if truthy (parent t) then t else t\<lparr>collapsed := True\<rparr>) (map_of threads k)"
  by (simp add: collapse_roots_def map_of_map)

lemma collapse_roots_fields:
  assumes "map_of threads k = Some t"
  obtains t' where "map_of (collapse_roots threads) k = Some t'" "parent t' = parent t"
    "children_ids t' = children_ids t"
proof -
  let ?t = "if truthy (parent t) then t else t\<lparr>collapsed := True\<rparr>"
  have "map_of (collapse_roots threads) k = Some ?t"
    by (simp add: collapse_roots_lookup assms)
  moreover have "parent ?t = parent t" "children_ids ?t = children_ids t"
    by simp_all
  ultimately show thesis by (rule that)
qed

lemma collapse_roots_back:
  assumes "map_of (collapse_roots threads) k = Some t'"
  obtains t where "map_of threads k = Some t" "parent t' = parent t"
    "children_ids t' = children_ids t"
proof (cases "map_of threads k")
  case None
  with assms show ?thesis by (simp add: collapse_roots_lookup)
next
  case (Some t)
  then obtain u where "map_of (collapse_roots threads) k = Some u" "parent u = parent t"
    "children_ids u = children_ids t"
    by (rule collapse_roots_fields)
  with assms Some that show ?thesis by simp
qed

lemma chains_end_collapse_roots:
  assumes "chains_end threads"
  shows "chains_end (collapse_roots threads)"
proof -
  have "ends (collapse_roots threads) k" if "ends threads k" for k
    using that
  proof (induction rule: ends.induct)
    case (missing k)
    then have "map_of (collapse_roots threads) k = None"
      by (simp add: collapse_roots_lookup)
    then show ?case by (rule ends.missing)
  next
    case (top k t)
    from top(1) obtain t' where t': "map_of (collapse_roots threads) k = Some t'" "parent t' = parent t"
      by (rule collapse_roots_fields)
    from t'(1) show ?case
      by (rule ends.top) (simp add: t'(2) top(2))
  next
    case (up k t p)
    from up(1) obtain t' where t': "map_of (collapse_roots threads) k = Some t'" "parent t' = parent t"
      by (rule collapse_roots_fields)
    from t'(1) show ?case
      by (rule ends.up[where p = p]) (simp_all add: t'(2) up)
  qed
  with assms show ?thesis
    unfolding chains_end_def by blast
qed

lemma forest_collapse_roots:
  assumes f: "forest threads"
  shows "forest (collapse_roots threads)"
  unfolding forest_def
proof (intro conjI allI impI)
  fix k t'
  assume "map_of (collapse_roots threads) k = Some t'"
  then obtain t where "map_of threads k = Some t" "parent t' = parent t"
    by (rule collapse_roots_back)
  with forest_parent[OF f] show "parent t' \<noteq> Some []" by simp
next
  fix k t' c
  assume "map_of (collapse_roots threads) k = Some t' \<and> c \<in> set (children_ids t')"
  then have k: "map_of (collapse_roots threads) k = Some t'" and c: "c \<in> set (children_ids t')"
    by simp_all
  from k obtain t where t: "map_of threads k = Some t" "children_ids t' = children_ids t"
    by (rule collapse_roots_back)
  from c t(2) have "c \<in> set (children_ids t)" by simp
  with f t(1) obtain u where u: "map_of threads c = Some u" "parent u = Some k"
    by (rule forest_child)
  from u(1) obtain u' where "map_of (collapse_roots threads) c = Some u'" "parent u' = parent u"
    by (rule collapse_roots_fields)
  with u(2) show "\<exists>u. map_of (collapse_roots threads) c = Some u \<and> parent u = Some k"
    by simp
qed

lemma set_select_children: "set (select_children opts threads cs) \<subseteq> set cs"
  by (simp add: select_children_def)

lemma set_thread_filter_children: "set (thread_filter_children opts threads cs) \<subseteq> set cs"
  by (simp add: thread_filter_children_def split: option.splits)

theorem buildThread_total:
  assumes "\<forall>a \<in> set annotations. no_self_reference a \<and> no_empty_reference a \<and> plain_keys a"
  shows "\<exists>t. buildThread annotations opts = Some t"
proof -
  have keys: "\<forall>a \<in> set annotations. map_of (create_threads annotations) (annotationId a) \<noteq> None"
    by (simp add: create_threads_keys)
  from assms have nsr: "\<forall>a \<in> set annotations. no_self_reference a"
    and ner: "\<forall>a \<in> set annotations. no_empty_reference a"
    and pk: "\<forall>a \<in> set annotations. plain_keys a" by simp_all
  from link_threads_total[OF chains_end_create_threads keys nsr pk] obtain threads0 where
    l: "link_threads (create_threads annotations) annotations = Some threads0"
    and c0: "chains_end threads0" by blast
  from forest_create_threads ner l have f0: "forest threads0"
    by (rule link_threads_forest)
  define threads where "threads = collapse_roots threads0"
  define root where "root = root_thread (filter (is_root_thread threads0) (for_in_keys threads0))"
  have ta: "threadAnnotations annotations = Some (threads, root)"
    by (simp add: threadAnnotations_def l threads_def root_def)
  have c: "chains_end threads"
    unfolding threads_def using c0 by (rule chains_end_collapse_roots)
  have f: "forest threads"
    unfolding threads_def using f0 by (rule forest_collapse_roots)
  define root2 where "root2 = root\<lparr>children_ids := thread_filter_children opts threads
                   (select_children opts threads (children_ids root))\<rparr>"
  define g where "g = (\<lambda>k. case map_of threads k of
                               None \<Rightarrow> None
                             | Some child \<Rightarrow> mapThread_obj threads child (set_visible opts))"
  have "\<forall>k \<in> set (children_ids root2). \<exists>y. g k = Some y"
  proof
    fix k assume "k \<in> set (children_ids root2)"
    then have "k \<in> set (children_ids root)"
      unfolding root2_def
      using set_thread_filter_children set_select_children by fastforce
    then have "is_root_thread threads0 k"
      by (simp add: root_def root_thread_def thread_state.extend_def)
    then obtain t0 where "map_of threads0 k = Some t0"
      by (auto simp: is_root_thread_def split: option.splits)
    then obtain t where t: "map_of threads k = Some t"
      unfolding threads_def by (rule collapse_roots_fields)
    from mapThread_obj_total[OF c f t] obtain y where
      "mapThread_obj threads t (set_visible opts) = Some y" ..
    with t have "g k = Some y" by (simp add: g_def)
    then show "\<exists>y. g k = Some y" ..
  qed
  then obtain cs where cs: "traverse g (children_ids root2) = Some cs"
    using traverse_total by blast
  have "mapThread_obj threads root2 (set_visible opts)
          = Option.bind (traverse g (children_ids root2))
              (\<lambda>cs. Some (Thread (set_visible opts root2) cs))"
    unfolding g_def by (rule mapThread_obj.simps)
  also have "\<dots> = Some (Thread (set_visible opts root2) cs)"
    by (simp add: cs)
  finally have m: "mapThread_obj threads root2 (set_visible opts)
                     = Some (Thread (set_visible opts root2) cs)" .
  have "buildThread annotations opts \<noteq> None"
    using ta m unfolding buildThread_def root2_def by (simp add: Let_def)
  then show ?thesis by blast
qed



section \<open>Replies when the references have no cycle\<close>




















section \<open>Selection\<close>

lemma opts_selected_frame:
  "opts_highlighted (opts\<lparr>selected := x\<rparr>) = opts_highlighted opts"
  "opts_expanded (opts\<lparr>selected := x\<rparr>) = opts_expanded opts"
  "opts_sortCompareFn (opts\<lparr>selected := x\<rparr>) = opts_sortCompareFn opts"
  "opts_replySortCompareFn (opts\<lparr>selected := x\<rparr>) = opts_replySortCompareFn opts"
  "hasHighlights (opts\<lparr>selected := x\<rparr>) = hasHighlights opts"
  "hasForcedVisible (opts\<lparr>selected := x\<rparr>) = hasForcedVisible opts"
  "annotationsFiltered (opts\<lparr>selected := x\<rparr>) = annotationsFiltered opts"
  by (simp_all add: opts_highlighted_def opts_expanded_def opts_sortCompareFn_def
        opts_replySortCompareFn_def hasHighlights_def hasForcedVisible_def
        annotationsFiltered_def)

lemma isVisible_selected: "isVisible (opts\<lparr>selected := x\<rparr>) t = isVisible opts t"
  unfolding isVisible_def opts_selected_frame by simp

lemma set_visible_selected: "set_visible (opts\<lparr>selected := x\<rparr>) = set_visible opts"
  by (rule ext) (simp add: set_visible_def isVisible_selected)

lemma thread_states_selected: "thread_states (opts\<lparr>selected := x\<rparr>) = thread_states opts"
  unfolding thread_states_def opts_selected_frame by (rule refl)

lemma thread_filter_children_selected:
  "thread_filter_children (opts\<lparr>selected := x\<rparr>) = thread_filter_children opts"
  by (intro ext) (simp add: thread_filter_children_def)

lemma select_children_empty:
  "select_children (opts\<lparr>selected := Some []\<rparr>) threads cs = cs"
  "select_children (opts\<lparr>selected := None\<rparr>) threads cs = cs"
  by (simp_all add: select_children_def hasSelected_def opts_selected_def)

text \<open>
  C9. With \<open>selected\<close> the empty list, \<open>buildThread\<close> prunes nothing by selection: the
  top-level children pass the selection step unchanged, and the whole result is the
  result with \<open>selected\<close> omitted.
\<close>

theorem buildThread_selected_empty:
  "buildThread annotations (opts\<lparr>selected := Some []\<rparr>)
     = buildThread annotations (opts\<lparr>selected := None\<rparr>)
   \<and> select_children (opts\<lparr>selected := Some []\<rparr>) threads cs = cs"
  unfolding buildThread_def select_children_empty set_visible_selected
    thread_states_selected thread_filter_children_selected opts_selected_frame
  by simp

section \<open>The counting pass\<close>

lemma truncate_extend: "thread_state.truncate (thread_state.extend s x) = s"
  by (simp add: thread_state.truncate_def thread_state.extend_def)

lemma truncate_fields:
  "id_t (thread_state.truncate s) = id_t s"
  "annotation (thread_state.truncate s) = annotation s"
  "parent (thread_state.truncate s) = parent s"
  "visible (thread_state.truncate s) = visible s"
  "collapsed (thread_state.truncate s) = collapsed s"
  "totalChildren (thread_state.truncate s) = totalChildren s"
  "highlightState (thread_state.truncate s) = highlightState s"
  by (simp_all add: thread_state.truncate_def)

lemma states_countRepliesAndDepth:
  "thread_state.truncate ` set_thread (countRepliesAndDepth t d) = set_thread t"
proof (induction t d rule: countRepliesAndDepth.induct)
  case (1 s cs d)
  have "(\<Union>c \<in> set cs. thread_state.truncate ` set_thread (countRepliesAndDepth c (d + 1)))
          = (\<Union>c \<in> set cs. set_thread c)"
    using 1 by simp
  then show ?case
    by (simp add: Let_def truncate_extend image_UN)
qed

text \<open>
  C10. \<open>countRepliesAndDepth\<close> changes \<open>children\<close>, \<open>depth\<close> and \<open>replyCount\<close> only:
  forgetting \<open>depth\<close> and \<open>replyCount\<close> in every thread of its result gives back its
  input, so the thread at each position keeps its \<open>id\<close>, \<open>annotation\<close>, \<open>parent\<close>,
  \<open>visible\<close>, \<open>collapsed\<close>, \<open>totalChildren\<close> and \<open>highlightState\<close>.
\<close>

theorem countRepliesAndDepth_frame:
  "map_thread thread_state.truncate (countRepliesAndDepth t d) = t"
proof (induction t d rule: countRepliesAndDepth.induct)
  case (1 s cs d)
  have "map (map_thread thread_state.truncate \<circ> (\<lambda>c. countRepliesAndDepth c (d + 1))) cs = cs"
    using 1 by (intro map_idI) simp
  then show ?case
    by (simp add: Let_def truncate_extend)
qed

lemma foldl_count:
  "foldl (\<lambda>total child. total + 1 + f child) a xs = a + (\<Sum>x\<leftarrow>xs. 1 + (f x :: nat))"
  by (induction xs arbitrary: a) simp_all

lemma depth_countRepliesAndDepth: "depth (state (countRepliesAndDepth t d)) = d"
  by (cases t) (simp add: Let_def thread_state.extend_def)

lemma children_countRepliesAndDepth:
  "children (countRepliesAndDepth t d) = map (\<lambda>c. countRepliesAndDepth c (d + 1)) (children t)"
  by (cases t) (simp add: Let_def)

lemma replyCount_step:
  "replyCount (state (countRepliesAndDepth (Thread s cs) d))
     = (\<Sum>c\<leftarrow>cs. 1 + replyCount (state (countRepliesAndDepth c (d + 1))))"
  unfolding countRepliesAndDepth.simps Let_def foldl_count
  by (simp add: thread_state.extend_def comp_def)

lemma descendants_step:
  "length (descendants (countRepliesAndDepth (Thread s cs) d))
     = (\<Sum>c\<leftarrow>cs. 1 + length (descendants (countRepliesAndDepth c (d + 1))))"
  by (simp add: Let_def length_concat comp_def)

lemma replyCount_countRepliesAndDepth:
  "replyCount (state (countRepliesAndDepth t d)) = length (descendants (countRepliesAndDepth t d))"
proof (induction t d rule: countRepliesAndDepth.induct)
  case (1 s cs d)
  show ?case
    unfolding replyCount_step descendants_step
    by (rule arg_cong[where f = sum_list], rule map_cong[OF refl]) (simp add: 1)
qed

lemma counted_nodes:
  "n \<in> set (nodes (countRepliesAndDepth t d)) \<Longrightarrow>
     replyCount (state n) = length (descendants n)
     \<and> (\<forall>c \<in> set (children n). depth (state c) = depth (state n) + 1)"
proof (induction t d arbitrary: n rule: countRepliesAndDepth.induct)
  case (1 s cs d)
  show ?case
  proof (cases "n = countRepliesAndDepth (Thread s cs) d")
    case True
    have "replyCount (state n) = length (descendants n)"
      unfolding True by (rule replyCount_countRepliesAndDepth)
    moreover have "\<forall>c \<in> set (children n). depth (state c) = depth (state n) + 1"
      unfolding True children_countRepliesAndDepth depth_countRepliesAndDepth
      by (auto simp: depth_countRepliesAndDepth)
    ultimately show ?thesis by simp
  next
    case False
    with "1.prems" obtain c where c: "c \<in> set cs"
      and n: "n \<in> set (nodes (countRepliesAndDepth c (d + 1)))"
      by (auto simp: nodes_def Let_def)
    from "1.IH"[OF c n] show ?thesis .
  qed
qed

text \<open>
  C5. In the tree that \<open>buildThread\<close> returns the root has depth \<open>-1\<close>, and every
  thread of the tree has as \<open>replyCount\<close> the number of all threads below it and
  children exactly one level deeper than itself.
\<close>

theorem buildThread_counts:
  assumes "buildThread annotations opts = Some t"
  shows "depth (state t) = - 1
         \<and> (\<forall>n \<in> set (nodes t).
               replyCount (state n) = length (descendants n)
               \<and> (\<forall>c \<in> set (children n). depth (state c) = depth (state n) + 1))"
proof -
  from assms obtain t3 where t: "t = countRepliesAndDepth t3 (- 1)"
    by (auto simp: buildThread_def Let_def split: option.splits)
  show ?thesis
    unfolding t using counted_nodes[of _ t3 "- 1"] by (simp add: depth_countRepliesAndDepth)
qed

theorem buildThread_counts_witness:
  "buildThread reply_chain no_options \<noteq> None
   \<and> depth (state (the (buildThread reply_chain no_options))) = - 1
   \<and> replyCount (state (the (buildThread reply_chain no_options)))
       = length (descendants (the (buildThread reply_chain no_options)))
   \<and> replyCount (state (the (buildThread reply_chain no_options))) = 3"
proof -
  have "buildThread reply_chain no_options \<noteq> None"
    by code_simp
  then obtain t where t: "buildThread reply_chain no_options = Some t"
    by auto
  have three: "replyCount (state (the (buildThread reply_chain no_options))) = 3"
    by code_simp
  from buildThread_counts[OF t] three show ?thesis
    using t by (simp add: nodes_def)
qed

section \<open>The sort pass\<close>

lemma array_sort_Cons: "array_sort cmp (x # xs) = insert_sorted cmp x (array_sort cmp xs)"
  by (simp add: array_sort_def)

lemma mset_insert_sorted: "mset (insert_sorted cmp x ys) = add_mset x (mset ys)"
  by (induction ys) auto

lemma mset_array_sort: "mset (array_sort cmp xs) = mset xs"
  by (induction xs) (simp_all add: array_sort_Cons mset_insert_sorted, simp add: array_sort_def)

lemma sorted_insert_sorted:
  assumes "consistent_on S cmp" "x \<in> S" "set ys \<subseteq> S"
    and "sorted_wrt (\<lambda>a b. cmp a b \<le> 0) ys"
  shows "sorted_wrt (\<lambda>a b. cmp a b \<le> 0) (insert_sorted cmp x ys)"
  using assms(3,4)
proof (induction ys)
  case Nil
  then show ?case by simp
next
  case (Cons y ys)
  show ?case
  proof (cases "cmp x y \<le> 0")
    case True
    have "cmp x z \<le> 0" if "z \<in> set ys" for z
    proof -
      from Cons.prems that have "cmp y z \<le> 0" "z \<in> S" "y \<in> S" by auto
      with True assms(1,2) show ?thesis
        unfolding consistent_on_def by blast
    qed
    with True Cons.prems show ?thesis by auto
  next
    case False
    with assms(1,2) Cons.prems(1) have "cmp y x \<le> 0"
      unfolding consistent_on_def by (meson list.set_intros(1) not_le subsetD)
    with False Cons show ?thesis
      by (auto simp: set_insert_sorted)
  qed
qed

lemma sorted_array_sort:
  assumes "consistent_on S cmp" "set xs \<subseteq> S"
  shows "sorted_wrt (\<lambda>a b. cmp a b \<le> 0) (array_sort cmp xs)"
  using assms(2)
proof (induction xs)
  case Nil
  then show ?case by (simp add: array_sort_def)
next
  case (Cons x xs)
  then show ?case
    unfolding array_sort_Cons
    by (intro sorted_insert_sorted[OF assms(1)]) (auto simp: set_array_sort)
qed

lemma filter_insert_sorted:
  assumes "\<forall>y \<in> set ys. P x \<and> P y \<longrightarrow> cmp x y \<le> 0"
  shows "filter P (insert_sorted cmp x ys) = (if P x then x # filter P ys else filter P ys)"
  using assms by (induction ys) auto

lemma stable_array_sort:
  assumes "consistent_on S cmp" "set xs \<subseteq> S" "k \<in> S"
  shows "filter (\<lambda>y. cmp k y = 0) (array_sort cmp xs) = filter (\<lambda>y. cmp k y = 0) xs"
  using assms(2)
proof (induction xs)
  case Nil
  then show ?case by (simp add: array_sort_def)
next
  case (Cons x xs)
  have "\<forall>y \<in> set (array_sort cmp xs). cmp k x = 0 \<and> cmp k y = 0 \<longrightarrow> cmp x y \<le> 0"
    using assms(1,3) Cons.prems unfolding consistent_on_def set_array_sort
    by (meson list.set_intros subsetD)
  from filter_insert_sorted[of "array_sort cmp xs" "\<lambda>y. cmp k y = 0" x cmp, OF this] Cons
  show ?case
    unfolding array_sort_Cons by simp
qed

lemma annotations_ofI: "t \<in> set ts \<Longrightarrow> annotation (state t) = Some a \<Longrightarrow> a \<in> annotations_of ts"
  by (induction ts) (auto simp: annotations_of_def split: option.splits)

lemma compare_threads_le:
  "compare_threads lt x y \<le> 0 \<longleftrightarrow>
     (case annotation (state x) of
        None \<Rightarrow> True
      | Some a \<Rightarrow> (case annotation (state y) of None \<Rightarrow> False | Some b \<Rightarrow> lt a b \<or> \<not> lt b a))"
  by (simp add: compare_threads_def split: option.splits)

lemma compare_threads_eq:
  "compare_threads lt x y = 0 \<longleftrightarrow>
     (case annotation (state x) of
        None \<Rightarrow> annotation (state y) = None
      | Some a \<Rightarrow> (case annotation (state y) of None \<Rightarrow> False | Some b \<Rightarrow> \<not> lt a b \<and> \<not> lt b a))"
  by (simp add: compare_threads_def split: option.splits)

lemma compare_threads_gt:
  "0 < compare_threads lt x y \<longleftrightarrow>
     (case annotation (state x) of
        None \<Rightarrow> False
      | Some a \<Rightarrow> (case annotation (state y) of None \<Rightarrow> True | Some b \<Rightarrow> \<not> lt a b \<and> lt b a))"
  by (simp add: compare_threads_def split: option.splits)

lemma consistent_compare_threads:
  assumes "less_than_on (annotations_of ts) lt"
  shows "consistent_on (set ts) (compare_threads lt)"
proof -
  have asym: "lt a b \<Longrightarrow> \<not> lt b a"
    and neg: "\<not> lt a b \<Longrightarrow> \<not> lt b c \<Longrightarrow> \<not> lt a c"
    if "a \<in> annotations_of ts" "b \<in> annotations_of ts" "c \<in> annotations_of ts" for a b c
    using assms that unfolding less_than_on_def by blast+
  have 1: "compare_threads lt y x \<le> 0"
    if "x \<in> set ts" "y \<in> set ts" "0 < compare_threads lt x y" for x y
    using that by (auto simp: compare_threads_gt compare_threads_le split: option.splits)
  have 2: "compare_threads lt x z \<le> 0"
    if "x \<in> set ts" "y \<in> set ts" "z \<in> set ts"
      "compare_threads lt x y \<le> 0" "compare_threads lt y z \<le> 0" for x y z
  proof (cases "annotation (state x)")
    case None
    then show ?thesis by (simp add: compare_threads_le)
  next
    case (Some a)
    with that(4) obtain b where b: "annotation (state y) = Some b" and ab: "lt a b \<or> \<not> lt b a"
      by (auto simp: compare_threads_le split: option.splits)
    with that(5) obtain c where c: "annotation (state z) = Some c" and bc: "lt b c \<or> \<not> lt c b"
      by (auto simp: compare_threads_le split: option.splits)
    have A: "a \<in> annotations_of ts" "b \<in> annotations_of ts" "c \<in> annotations_of ts"
      using that(1-3) Some b c by (auto intro: annotations_ofI)
    from ab asym[OF A(1,2,3)] have "\<not> lt b a" by blast
    moreover from bc asym[OF A(2,3,1)] have "\<not> lt c b" by blast
    ultimately have "\<not> lt c a" using neg[OF A(3,2,1)] by blast
    with Some c show ?thesis by (simp add: compare_threads_le)
  qed
  have 3: "compare_threads lt x y \<le> 0"
    if "k \<in> set ts" "x \<in> set ts" "y \<in> set ts"
      "compare_threads lt k x = 0" "compare_threads lt k y = 0" for k x y
  proof (cases "annotation (state k)")
    case None
    with that(4) show ?thesis by (simp add: compare_threads_le compare_threads_eq)
  next
    case (Some c)
    with that(4) obtain a where a: "annotation (state x) = Some a" and ca: "\<not> lt c a" "\<not> lt a c"
      by (auto simp: compare_threads_eq split: option.splits)
    from Some that(5) obtain b where b: "annotation (state y) = Some b" and cb: "\<not> lt c b" "\<not> lt b c"
      by (auto simp: compare_threads_eq split: option.splits)
    have A: "a \<in> annotations_of ts" "b \<in> annotations_of ts" "c \<in> annotations_of ts"
      using that(1-3) Some a b by (auto intro: annotations_ofI)
    from cb(2) ca(1) have "\<not> lt b a" using neg[OF A(2,3,1)] by blast
    with a b show ?thesis by (simp add: compare_threads_le)
  qed
  show ?thesis
    unfolding consistent_on_def using 1 2 3 by blast
qed

lemma same_rank_compare_threads: "same_rank lt t u \<longleftrightarrow> compare_threads lt t u = 0"
  by (simp add: same_rank_def compare_threads_def split: option.splits)

lemma sort_threads_sorted_level:
  assumes "less_than_on (annotations_of threads) compareFn"
  shows "sorted_level compareFn threads (sort_threads threads compareFn)"
proof -
  let ?cmp = "compare_threads compareFn"
  let ?ys = "sort_threads threads compareFn"
  note cons = consistent_compare_threads[OF assms]
  have m: "mset ?ys = mset threads"
    by (simp add: sort_threads_def mset_array_sort)
  have set_ys: "set ?ys = set threads"
    by (simp add: sort_threads_def set_array_sort)
  have sorted: "sorted_wrt (\<lambda>a b. ?cmp a b \<le> 0) ?ys"
    unfolding sort_threads_def by (rule sorted_array_sort[OF cons]) simp
  have before: "i < j"
    if "i < length ?ys" "j < length ?ys" "0 < ?cmp (?ys ! j) (?ys ! i)" for i j
  proof (rule ccontr)
    assume "\<not> i < j"
    then consider "j < i" | "i = j" by linarith
    then show False
    proof cases
      case 1
      with sorted that(1) have "?cmp (?ys ! j) (?ys ! i) \<le> 0"
        by (simp add: sorted_wrt_iff_nth_less)
      with that(3) show False by simp
    next
      case 2
      with that(3) show False
        by (auto simp: compare_threads_gt split: option.splits)
    qed
  qed
  have lt: "i < j"
    if "i < length ?ys" "j < length ?ys"
      "annotation (state (?ys ! i)) = Some a" "annotation (state (?ys ! j)) = Some b"
      "compareFn a b" for i j a b
  proof -
    have "?ys ! i \<in> set threads" "?ys ! j \<in> set threads"
      using that(1,2) set_ys nth_mem by metis+
    then have "a \<in> annotations_of threads" "b \<in> annotations_of threads"
      using that(3,4) by (auto intro: annotations_ofI)
    with assms that(5) have "\<not> compareFn b a"
      unfolding less_than_on_def by blast
    with that(3-5) have "0 < ?cmp (?ys ! j) (?ys ! i)"
      by (simp add: compare_threads_gt)
    with that(1,2) show ?thesis by (rule before)
  qed
  have ph: "i < j"
    if "i < length ?ys" "j < length ?ys"
      "annotation (state (?ys ! i)) = None" "annotation (state (?ys ! j)) \<noteq> None" for i j
  proof -
    from that(3,4) have "0 < ?cmp (?ys ! j) (?ys ! i)"
      by (auto simp: compare_threads_gt split: option.splits)
    with that(1,2) show ?thesis by (rule before)
  qed
  have st: "filter (same_rank compareFn t) ?ys = filter (same_rank compareFn t) threads"
    if "t \<in> set threads" for t
    unfolding sort_threads_def same_rank_compare_threads
    using cons _ that by (rule stable_array_sort) simp
  from m lt ph st show ?thesis
    unfolding sorted_level_def by blast
qed

lemma state_sortThread: "state (sortThread t c r) = state t"
  by (cases t) simp

lemma children_sortThread:
  "children (sortThread t c r) = sort_threads (map (\<lambda>child. sortThread child r r) (children t)) c"
  by (cases t) simp

lemma annotations_of_sortThread:
  "annotations_of (map (\<lambda>child. sortThread child r r) cs) = annotations_of cs"
  by (induction cs) (auto simp: annotations_of_def List.map_filter_simps state_sortThread
        split: option.splits)

lemma sortThread_level:
  assumes "less_than_on (annotations_of (children t)) c"
  shows "sorted_level c (map (\<lambda>child. sortThread child r r) (children t))
           (children (sortThread t c r))"
  unfolding children_sortThread
  by (rule sort_threads_sorted_level) (simp add: annotations_of_sortThread assms)

lemma descendants_children: "c \<in> set (children t) \<Longrightarrow> c \<in> set (descendants t)"
  by (cases t) auto

lemma descendants_trans:
  "c \<in> set (children t) \<Longrightarrow> m \<in> set (descendants c) \<Longrightarrow> m \<in> set (descendants t)"
  by (cases t) auto

lemma descendants_cases:
  assumes "n \<in> set (descendants t)"
  obtains c where "c \<in> set (children t)" "n = c \<or> n \<in> set (descendants c)"
  using assms by (cases t) auto

lemma sortThread_below:
  assumes "\<forall>m \<in> set (descendants t). less_than_on (annotations_of (children m)) r"
    and "n \<in> set (descendants (sortThread t c r))"
  shows "\<exists>m \<in> set (descendants t). n = sortThread m r r
           \<and> sorted_level r (map (\<lambda>child. sortThread child r r) (children m)) (children n)"
  using assms
proof (induction t arbitrary: c n)
  case (Thread s cs)
  from Thread.prems(2) obtain c' where
    c': "c' \<in> set (children (sortThread (Thread s cs) c r))"
    and n: "n = c' \<or> n \<in> set (descendants c')"
    by (rule descendants_cases)
  from c' obtain ch where ch: "ch \<in> set cs" and eq: "c' = sortThread ch r r"
    by (auto simp: sort_threads_def set_array_sort)
  have chd: "ch \<in> set (descendants (Thread s cs))"
    using ch by (intro descendants_children) simp
  from n show ?case
  proof
    assume "n = c'"
    moreover from Thread.prems(1) chd have "less_than_on (annotations_of (children ch)) r"
      by blast
    then have "sorted_level r (map (\<lambda>child. sortThread child r r) (children ch))
                 (children (sortThread ch r r))"
      by (rule sortThread_level)
    ultimately show ?thesis
      using chd eq by blast
  next
    assume "n \<in> set (descendants c')"
    then have nd: "n \<in> set (descendants (sortThread ch r r))"
      by (simp add: eq)
    have sub: "m \<in> set (descendants (Thread s cs))" if "m \<in> set (descendants ch)" for m
      using _ that by (rule descendants_trans) (simp add: ch)
    with Thread.prems(1)
    have "\<forall>m \<in> set (descendants ch). less_than_on (annotations_of (children m)) r"
      by blast
    from Thread.IH[OF ch this nd] sub show ?thesis
      by blast
  qed
qed

text \<open>
  C6, as stated for every predicate, fails. The default comparison of top-level
  annotations, \<open>a.id < b.id\<close>, is false both ways when one of the two has no id yet. For an
  unsaved annotation \<open>t1\<close> between the saved annotations \<open>b\<close> and \<open>a\<close>, the claim asks to keep
  \<open>b\<close> before \<open>t1\<close> and \<open>t1\<close> before \<open>a\<close> (neither is less than the other) and to put \<open>a\<close>
  before \<open>b\<close> (it is less): \<open>buildThread\<close> returns them as they came, \<open>b\<close> before \<open>a\<close>.
\<close>

theorem unsaved_annotation_counterexample:
  "buildThread unsaved_between no_options \<noteq> None
   \<and> map (\<lambda>t. annotation (state t)) (children (the (buildThread unsaved_between no_options)))
       = [Some (reply_to ''b'' []), Some (unsaved ''t1''), Some (reply_to ''a'' [])]
   \<and> opts_sortCompareFn no_options = default_sortCompareFn
   \<and> default_sortCompareFn (reply_to ''a'' []) (reply_to ''b'' [])
   \<and> \<not> default_sortCompareFn (reply_to ''b'' []) (unsaved ''t1'')
   \<and> \<not> default_sortCompareFn (unsaved ''t1'') (reply_to ''b'' [])
   \<and> \<not> default_sortCompareFn (unsaved ''t1'') (reply_to ''a'' [])
   \<and> \<not> default_sortCompareFn (reply_to ''a'' []) (unsaved ''t1'')"
proof -
  have "buildThread unsaved_between no_options \<noteq> None
   \<and> map (\<lambda>t. annotation (state t)) (children (the (buildThread unsaved_between no_options)))
       = [Some (reply_to ''b'' []), Some (unsaved ''t1''), Some (reply_to ''a'' [])]
   \<and> default_sortCompareFn (reply_to ''a'' []) (reply_to ''b'' [])
   \<and> \<not> default_sortCompareFn (reply_to ''b'' []) (unsaved ''t1'')
   \<and> \<not> default_sortCompareFn (unsaved ''t1'') (reply_to ''b'' [])
   \<and> \<not> default_sortCompareFn (unsaved ''t1'') (reply_to ''a'' [])
   \<and> \<not> default_sortCompareFn (reply_to ''a'' []) (unsaved ''t1'')"
    by code_simp
  moreover have "opts_sortCompareFn no_options = default_sortCompareFn"
    by (simp add: opts_sortCompareFn_def no_options_def)
  ultimately show ?thesis
    by simp
qed

text \<open>
  No arrangement of these three threads does what the claim asks, so the failure does not
  depend on what \<open>Array.prototype.sort\<close> does with an inconsistent comparator.
\<close>

lemma unsaved_incomparable:
  "default_sortCompareFn (reply_to ''a'' []) (reply_to ''b'' [])"
  "\<not> default_sortCompareFn (unsaved ''t1'') x"
  "\<not> default_sortCompareFn x (unsaved ''t1'')"
  by (simp_all add: default_sortCompareFn_def unsaved_def reply_to_def split: option.splits)

lemma unsaved_no_sorted_level:
  assumes "map (\<lambda>t. annotation (state t)) xs
             = [Some (reply_to ''b'' []), Some (unsaved ''t1''), Some (reply_to ''a'' [])]"
  shows "\<not> sorted_level default_sortCompareFn xs ys"
proof
  assume s: "sorted_level default_sortCompareFn xs ys"
  from assms obtain x0 x1 x2 where xs: "xs = [x0, x1, x2]"
    and a: "annotation (state x0) = Some (reply_to ''b'' [])"
      "annotation (state x1) = Some (unsaved ''t1'')"
      "annotation (state x2) = Some (reply_to ''a'' [])"
    by (auto simp: map_eq_Cons_conv)
  have all: "same_rank default_sortCompareFn x1 u" if "u \<in> set xs" for u
    using that a by (auto simp: xs same_rank_def unsaved_incomparable)
  from s have "set ys = set xs"
    unfolding sorted_level_def by (metis mset_eq_setD)
  with all have "filter (same_rank default_sortCompareFn x1) ys = ys"
    "filter (same_rank default_sortCompareFn x1) xs = xs"
    by simp_all
  moreover from s have "filter (same_rank default_sortCompareFn x1) ys
      = filter (same_rank default_sortCompareFn x1) xs"
    unfolding sorted_level_def by (simp add: xs)
  ultimately have ys: "ys = [x0, x1, x2]"
    by (simp add: xs)
  from s have "2 < length ys \<and> 0 < length ys
      \<and> (\<exists>a b. annotation (state (ys ! 2)) = Some a \<and> annotation (state (ys ! 0)) = Some b
               \<and> default_sortCompareFn a b) \<longrightarrow> (2::nat) < 0"
    unfolding sorted_level_def by blast
  then show False
    by (simp add: ys a unsaved_incomparable)
qed

text \<open>
  C6, amended. Let \<open>compareFn\<close> be a less-than on the annotations of the children of a
  thread, and \<open>replyCompareFn\<close> a less-than on the annotations of the children of each thread
  below it. Then \<open>sortThread\<close> keeps the state of the thread; its children are the sorted
  children of the input, arranged by \<open>compareFn\<close>: a thread comes before another whenever
  \<open>compareFn\<close> holds of their annotations (in that order), a thread without annotation comes
  before every thread with one, and threads of the same rank keep their input order. Every
  thread below the result is the sorted form of a thread below the input, with the same
  state, and its children are arranged in the same way by \<open>replyCompareFn\<close>.
\<close>

theorem sortThread_order:
  assumes "less_than_on (annotations_of (children thread)) compareFn"
    and "\<forall>m \<in> set (descendants thread).
           less_than_on (annotations_of (children m)) replyCompareFn"
  shows "state (sortThread thread compareFn replyCompareFn) = state thread
    \<and> sorted_level compareFn
        (map (\<lambda>child. sortThread child replyCompareFn replyCompareFn) (children thread))
        (children (sortThread thread compareFn replyCompareFn))
    \<and> (\<forall>n \<in> set (descendants (sortThread thread compareFn replyCompareFn)).
          \<exists>m \<in> set (descendants thread).
            n = sortThread m replyCompareFn replyCompareFn
            \<and> state n = state m
            \<and> sorted_level replyCompareFn
                (map (\<lambda>child. sortThread child replyCompareFn replyCompareFn) (children m))
                (children n))"
proof (intro conjI ballI)
  show "state (sortThread thread compareFn replyCompareFn) = state thread"
    by (rule state_sortThread)
  show "sorted_level compareFn
        (map (\<lambda>child. sortThread child replyCompareFn replyCompareFn) (children thread))
        (children (sortThread thread compareFn replyCompareFn))"
    using assms(1) by (rule sortThread_level)
  fix n
  assume "n \<in> set (descendants (sortThread thread compareFn replyCompareFn))"
  with assms(2) obtain m where "m \<in> set (descendants thread)"
    and "n = sortThread m replyCompareFn replyCompareFn"
    and "sorted_level replyCompareFn
           (map (\<lambda>child. sortThread child replyCompareFn replyCompareFn) (children m))
           (children n)"
    using sortThread_below by blast
  moreover from this(2) have "state n = state m"
    by (simp add: state_sortThread)
  ultimately show "\<exists>m \<in> set (descendants thread).
            n = sortThread m replyCompareFn replyCompareFn
            \<and> state n = state m
            \<and> sorted_level replyCompareFn
                (map (\<lambda>child. sortThread child replyCompareFn replyCompareFn) (children m))
                (children n)"
    by blast
qed

theorem sortThread_order_witness:
  "less_than_on (annotations_of (children two_levels)) default_sortCompareFn
   \<and> list_all (\<lambda>m. less_than_on (annotations_of (children m)) default_replySortCompareFn)
        (descendants two_levels)
   \<and> map (\<lambda>t. (id_t (state t), map (\<lambda>u. id_t (state u)) (children t)))
       (children two_levels) = [(''b'', [''x'', ''y'']), (''a'', [])]
   \<and> map (\<lambda>t. (id_t (state t), map (\<lambda>u. id_t (state u)) (children t)))
       (children (sortThread two_levels default_sortCompareFn default_replySortCompareFn))
       = [(''a'', []), (''b'', [''y'', ''x''])]
   \<and> sorted_level default_sortCompareFn
        (map (\<lambda>child. sortThread child default_replySortCompareFn default_replySortCompareFn)
           (children two_levels))
        (children (sortThread two_levels default_sortCompareFn default_replySortCompareFn))"
proof -
  have h1: "less_than_on (annotations_of (children two_levels)) default_sortCompareFn"
    by code_simp
  have h2': "list_all (\<lambda>m. less_than_on (annotations_of (children m)) default_replySortCompareFn)
        (descendants two_levels)"
    by code_simp
  then have h2: "\<forall>m \<in> set (descendants two_levels).
         less_than_on (annotations_of (children m)) default_replySortCompareFn"
    by (simp add: list_all_iff)
  have "map (\<lambda>t. (id_t (state t), map (\<lambda>u. id_t (state u)) (children t)))
       (children two_levels) = [(''b'', [''x'', ''y'']), (''a'', [])]"
    by code_simp
  moreover have "map (\<lambda>t. (id_t (state t), map (\<lambda>u. id_t (state u)) (children t)))
       (children (sortThread two_levels default_sortCompareFn default_replySortCompareFn))
       = [(''a'', []), (''b'', [''y'', ''x''])]"
    by code_simp
  ultimately show ?thesis
    using h1 h2' sortThread_order[OF h1 h2] by blast
qed

section \<open>Visibility\<close>

lemma forced_ok_set_visible:
  assumes "obj_ok t" "forceVisible opts = Some ids"
  shows "forced_ok ids (set_visible opts t)"
proof (cases "annotation t")
  case None
  then show ?thesis
    by (simp add: forced_ok_def set_visible_def truncate_fields)
next
  case (Some a)
  with assms(1) have "visible t" "id_t t = annotationId a"
    by (simp_all add: obj_ok_def)
  with Some assms(2) show ?thesis
    by (auto simp: forced_ok_def set_visible_def truncate_fields isVisible_def
          hasForcedVisible_def)
qed

lemma forced_ok_thread_states: "forced_ok ids (thread_states opts n) = forced_ok ids (state n)"
  by (simp add: forced_ok_def thread_states_def Let_def split: option.splits)

lemma forced_ok_truncate: "forced_ok ids (thread_state.truncate s) = forced_ok ids s"
  by (simp add: forced_ok_def truncate_fields)

text \<open>
  C8. In the tree that \<open>buildThread\<close> returns, a thread that shows an annotation and
  whose id is in \<open>forceVisible\<close> is visible, whatever \<open>filterFn\<close> says of the
  annotation.
\<close>

theorem buildThread_forceVisible:
  assumes "buildThread annotations opts = Some t"
    and "n \<in> set (nodes t)"
    and "annotation (state n) = Some a"
    and "forceVisible opts = Some ids"
    and "id_t (state n) \<in> set ids"
  shows "visible (state n)"
proof -
  from assms(1) obtain threads root root2 t0 where
    ta: "threadAnnotations annotations = Some (threads, root)"
    and root2: "root2 = root\<lparr>children_ids := thread_filter_children opts threads
                   (select_children opts threads (children_ids root))\<rparr>"
    and t0: "mapThread_obj threads root2 (set_visible opts) = Some t0"
    and t: "t = countRepliesAndDepth
                 (sortThread (mapThread (prune_invisible t0) (thread_states opts))
                    (opts_sortCompareFn opts) (opts_replySortCompareFn opts)) (- 1)"
    by (auto simp: buildThread_def Let_def split: option.splits)
  let ?t1 = "prune_invisible t0"
  let ?t2 = "mapThread ?t1 (thread_states opts)"
  let ?t3 = "sortThread ?t2 (opts_sortCompareFn opts) (opts_replySortCompareFn opts)"
  from heap_ok_threadAnnotations[OF ta] have heap: "heap_ok threads" and "obj_ok root"
    by simp_all
  then have "obj_ok root2"
    unfolding root2 by (simp add: obj_ok_fields)
  with heap have objs: "\<forall>x \<in> insert root2 (ran (map_of threads)). obj_ok x"
    by (simp add: heap_ok_def)
  have 0: "\<forall>s \<in> set_thread t0. forced_ok ids s"
    using mapThread_obj_states[OF t0] objs forced_ok_set_visible[OF _ assms(4)] by blast
  then have 1: "\<forall>s \<in> set_thread ?t1. forced_ok ids s"
    using states_prune_invisible[of t0] by blast
  have 2: "\<forall>s \<in> set_thread ?t2. forced_ok ids s"
  proof
    fix s assume "s \<in> set_thread ?t2"
    with states_mapThread[of ?t1 "thread_states opts"] obtain m where
      m: "m \<in> set (nodes ?t1)" and s: "s = thread_states opts m"
      by blast
    from state_nodes[OF m] 1 show "forced_ok ids s"
      unfolding s forced_ok_thread_states by blast
  qed
  then have 3: "\<forall>s \<in> set_thread ?t3. forced_ok ids s"
    by (simp add: states_sortThread)
  have "thread_state.truncate (state n) \<in> set_thread ?t3"
  proof -
    have "thread_state.truncate (state n) \<in> thread_state.truncate ` set_thread t"
      using state_nodes[OF assms(2)] by (rule imageI)
    also have "\<dots> = set_thread ?t3"
      unfolding t by (rule states_countRepliesAndDepth)
    finally show ?thesis .
  qed
  with 3 have "forced_ok ids (state n)"
    unfolding forced_ok_truncate[symmetric, of ids "state n"] by blast
  with assms(3,5) show ?thesis
    by (simp add: forced_ok_def)
qed

theorem buildThread_forceVisible_witness:
  "buildThread reply_chain force_B_reject_all \<noteq> None
   \<and> id_t (state (hd (children (hd (children (the (buildThread reply_chain force_B_reject_all))))))) = ''B''
   \<and> visible (state (hd (children (hd (children (the (buildThread reply_chain force_B_reject_all)))))))
   \<and> \<not> visible (state (hd (children (the (buildThread reply_chain force_B_reject_all)))))"
proof -
  let ?r = "buildThread reply_chain force_B_reject_all"
  let ?n = "hd (children (hd (children (the ?r))))"
  have "?r \<noteq> None"
    by code_simp
  then obtain t where t: "?r = Some t"
    by auto
  have n: "?n \<in> set (nodes (the ?r))"
    by code_simp
  have a: "annotation (state ?n) = Some (reply_to ''B'' [''A''])"
    by code_simp
  have f: "forceVisible force_B_reject_all = Some [''B'']"
    by (simp add: force_B_reject_all_def no_options_def)
  have i: "id_t (state ?n) = ''B''"
    by code_simp
  have other: "\<not> visible (state (hd (children (the ?r))))"
    by code_simp
  have "visible (state ?n)"
    using buildThread_forceVisible[OF t _ _ f, of ?n] n a i t by simp
  with t i other show ?thesis
    by simp
qed

text \<open>
  C7, as stated, fails: the placeholder for a missing parent stays invisible although
  \<open>forceVisible\<close> names both the id it is stored under and the id it carries.
\<close>

theorem forceVisible_placeholder_counterexample:
  "buildThread orphan_reply force_placeholder \<noteq> None
   \<and> annotation (state (hd (children (the (buildThread orphan_reply force_placeholder))))) = None
   \<and> id_t (state (hd (children (the (buildThread orphan_reply force_placeholder)))))
       \<in> set (the (forceVisible force_placeholder))
   \<and> \<not> visible (state (hd (children (the (buildThread orphan_reply force_placeholder)))))"
  by code_simp

text \<open>
  C7, amended. The visibility pass makes a thread visible exactly when its \<open>visible\<close>
  flag was true, it shows an annotation, and either the annotation's id is in
  \<open>forceVisible\<close> or no \<open>filterFn\<close> is configured or \<open>filterFn\<close> accepts the
  annotation. So a thread in \<open>forceVisible\<close> that passes the first two tests is visible
  whatever \<open>filterFn\<close> says, and a thread with no annotation, or whose flag was already
  false, is invisible even when \<open>forceVisible\<close> names it.
\<close>

theorem set_visible_forceVisible:
  "visible (set_visible opts thread) =
     (visible thread
      \<and> (case annotation thread of
           None \<Rightarrow> False
         | Some a \<Rightarrow>
             (case forceVisible opts of None \<Rightarrow> False | Some ids \<Rightarrow> annotationId a \<in> set ids)
             \<or> (case filterFn opts of None \<Rightarrow> True | Some f \<Rightarrow> f a)))"
  by (auto simp: set_visible_def truncate_fields isVisible_def hasForcedVisible_def
        annotationsFiltered_def split: option.splits)

theorem set_visible_forceVisible_witness:
  "visible (set_visible force_B_reject_all (new_thread (reply_to ''B'' [''A''])))
   \<and> \<not> visible (set_visible force_B_reject_all (new_thread (reply_to ''C'' [''A'', ''B''])))
   \<and> \<not> visible (set_visible force_placeholder placeholder)"
  unfolding set_visible_forceVisible
  by (simp add: force_B_reject_all_def force_placeholder_def no_options_def new_thread_def
        placeholder_def DEFAULT_THREAD_STATE_def thread_state.extend_def reply_to_def
        annotationId_def)

end
